theory Spec2Isabelle
  imports Complex_Main "HOL-Library.Sublist"
begin

section \<open>The big-integer capability (JSBI)\<close>

text \<open>
  JSBI values are signed integers of arbitrary size, modelled as \<^typ>\<open>int\<close>.
  \<^verbatim>\<open>JSBI.divide\<close> truncates towards zero and \<^verbatim>\<open>JSBI.remainder\<close> takes the sign of
  the dividend; both throw a RangeError on a zero divisor.
\<close>

datatype error = RangeError | TypeError

definition trunc_div :: "int \<Rightarrow> int \<Rightarrow> int" where
  "trunc_div a b = sgn a * sgn b * (\<bar>a\<bar> div \<bar>b\<bar>)"

definition trunc_rem :: "int \<Rightarrow> int \<Rightarrow> int" where
  "trunc_rem a b = sgn a * (\<bar>a\<bar> mod \<bar>b\<bar>)"

definition JSBI_divide :: "int \<Rightarrow> int \<Rightarrow> error + int" where
  "JSBI_divide a b = (if b = 0 then Inl RangeError else Inr (trunc_div a b))"

definition JSBI_remainder :: "int \<Rightarrow> int \<Rightarrow> error + int" where
  "JSBI_remainder a b = (if b = 0 then Inl RangeError else Inr (trunc_rem a b))"

lemma abs_trunc_rem: "\<bar>trunc_rem a b\<bar> = \<bar>a\<bar> mod \<bar>b\<bar>"
proof -
  have "0 \<le> \<bar>a\<bar> mod \<bar>b\<bar>"
    by (cases "b = 0") simp_all
  then show ?thesis
    by (cases "a = 0") (simp_all add: trunc_rem_def abs_mult)
qed

text \<open>
  \<^verbatim>\<open>gcd(a, b)\<close>: the loop \<^verbatim>\<open>while (b != 0) { t = b; b = a % b; a = t; }\<close>. The remainder
  runs under the guard \<^verbatim>\<open>b != 0\<close>, where \<^verbatim>\<open>JSBI.remainder\<close> cannot throw.
\<close>

function gcd_loop :: "int \<Rightarrow> int \<Rightarrow> int" where
  "gcd_loop a b = (if b \<noteq> 0 then gcd_loop b (trunc_rem a b) else a)"
  by pat_completeness auto
termination
proof (relation "measure (\<lambda>(a, b). nat \<bar>b\<bar>)")
  show "wf (measure (\<lambda>(a, b). nat \<bar>b\<bar>))" by simp
next
  fix a b :: int
  assume "b \<noteq> 0"
  then have "\<bar>a\<bar> mod \<bar>b\<bar> < \<bar>b\<bar>" by simp
  with \<open>b \<noteq> 0\<close> show "((b, trunc_rem a b), (a, b)) \<in> measure (\<lambda>(a, b). nat \<bar>b\<bar>)"
    by (simp add: abs_trunc_rem)
qed

declare gcd_loop.simps [simp del]

section \<open>The Rational value type\<close>

record Rational =
  numerator :: int
  denominator :: int
  isNegative :: bool

text \<open>The constructor \<^verbatim>\<open>new Rational(p, q)\<close>.\<close>

definition Rational_new :: "int \<Rightarrow> int \<Rightarrow> error + Rational" where
  "Rational_new p q =
     (if q = 0 then Inl RangeError
      else
        let (num, den, neg) =
              (if p < 0 then (if q < 0 then (- p, - q, False) else (- p, q, True))
               else if q < 0 then (p, - q, True)
               else (p, q, False));
            g = gcd_loop num den
        in case JSBI_divide num g of
             Inl e \<Rightarrow> Inl e
           | Inr n' \<Rightarrow>
               (case JSBI_divide den g of
                  Inl e \<Rightarrow> Inl e
                | Inr d' \<Rightarrow> Inr \<lparr>numerator = n', denominator = d', isNegative = neg\<rparr>))"

definition minusOne :: int where
  "minusOne = - 1"

definition negate :: "Rational \<Rightarrow> error + Rational" where
  "negate r =
     (if isNegative r then Rational_new (numerator r) (denominator r)
      else Rational_new (numerator r * minusOne) (denominator r))"

text \<open>The exact mathematical value a Rational stands for.\<close>

definition value_of :: "Rational \<Rightarrow> rat" where
  "value_of r =
     (if isNegative r then - 1 else 1) * (of_int (numerator r) / of_int (denominator r))"

subsection \<open>What the constructor computes\<close>

lemma trunc_rem_nonneg: "0 \<le> a \<Longrightarrow> 0 < b \<Longrightarrow> trunc_rem a b = a mod b"
  by (cases "a = 0") (simp_all add: trunc_rem_def)

lemma trunc_div_nonneg: "0 \<le> a \<Longrightarrow> 0 < b \<Longrightarrow> trunc_div a b = a div b"
  by (cases "a = 0") (simp_all add: trunc_div_def)

lemma gcd_loop_eq: "0 \<le> a \<Longrightarrow> 0 \<le> b \<Longrightarrow> gcd_loop a b = gcd a b"
proof (induction a b rule: gcd_loop.induct)
  case (1 a b)
  show ?case
  proof (cases "b = 0")
    case True
    with "1.prems" show ?thesis using gcd_loop.simps [of a b] by simp
  next
    case False
    with "1.prems" have b: "0 < b" by simp
    have r: "trunc_rem a b = a mod b"
      using "1.prems" b by (simp add: trunc_rem_nonneg)
    have "gcd_loop b (trunc_rem a b) = gcd b (trunc_rem a b)"
      using "1.IH" False b r by simp
    moreover have "gcd b (a mod b) = gcd a b"
      by (metis gcd.commute gcd_red_int)
    ultimately show ?thesis
      using False r gcd_loop.simps [of a b] by simp
  qed
qed

lemma Rational_new_eq:
  assumes "q \<noteq> 0"
  shows "Rational_new p q =
    Inr \<lparr>numerator = \<bar>p\<bar> div gcd p q, denominator = \<bar>q\<bar> div gcd p q,
        isNegative = ((p < 0) \<noteq> (q < 0))\<rparr>"
proof -
  have g: "gcd_loop \<bar>p\<bar> \<bar>q\<bar> = gcd p q"
    using gcd_loop_eq [of "\<bar>p\<bar>" "\<bar>q\<bar>"] by simp
  have gpos: "0 < gcd p q"
    using assms by (simp add: gcd_pos_int)
  have d1: "JSBI_divide \<bar>p\<bar> (gcd p q) = Inr (\<bar>p\<bar> div gcd p q)"
    using gpos by (simp add: JSBI_divide_def trunc_div_nonneg)
  have d2: "JSBI_divide \<bar>q\<bar> (gcd p q) = Inr (\<bar>q\<bar> div gcd p q)"
    using gpos by (simp add: JSBI_divide_def trunc_div_nonneg)
  consider "p < 0" "q < 0" | "p < 0" "0 < q" | "0 \<le> p" "q < 0" | "0 \<le> p" "0 < q"
    using assms by linarith
  then show ?thesis
  proof cases
    case 1
    then have "gcd_loop (- p) (- q) = gcd p q" "\<bar>p\<bar> = - p" "\<bar>q\<bar> = - q"
      using g by simp_all
    with 1 d1 d2 assms show ?thesis by (simp add: Rational_new_def Let_def)
  next
    case 2
    then have "gcd_loop (- p) q = gcd p q" "\<bar>p\<bar> = - p" "\<bar>q\<bar> = q"
      using g by simp_all
    with 2 d1 d2 assms show ?thesis by (simp add: Rational_new_def Let_def)
  next
    case 3
    then have "gcd_loop p (- q) = gcd p q" "\<bar>p\<bar> = p" "\<bar>q\<bar> = - q"
      using g by simp_all
    with 3 d1 d2 assms show ?thesis by (simp add: Rational_new_def Let_def)
  next
    case 4
    then have "gcd_loop p q = gcd p q" "\<bar>p\<bar> = p" "\<bar>q\<bar> = q"
      using g by simp_all
    with 4 d1 d2 assms show ?thesis by (simp add: Rational_new_def Let_def)
  qed
qed

definition negations_left :: "Rational \<Rightarrow> nat" where
  "negations_left r =
     (if \<not> isNegative r then 0
      else case negate r of
             Inl e \<Rightarrow> 1
           | Inr r' \<Rightarrow> (if isNegative r' then 2 else 1))"

lemma negate_negative_output:
  assumes "negate r = Inr r'" and "isNegative r'"
  shows "negate r' = Inr r'' \<Longrightarrow> \<not> isNegative r''" and "\<exists>r''. negate r' = Inr r''"
proof -
  obtain p q where pq: "Rational_new p q = Inr r'"
    using assms(1) by (auto simp: negate_def split: if_splits)
  then have q: "q \<noteq> 0"
    by (auto simp: Rational_new_def)
  have r': "r' = \<lparr>numerator = \<bar>p\<bar> div gcd p q, denominator = \<bar>q\<bar> div gcd p q,
        isNegative = ((p < 0) \<noteq> (q < 0))\<rparr>"
    using pq Rational_new_eq [OF q, of p] by simp
  have gpos: "0 < gcd p q"
    using q by (simp add: gcd_pos_int)
  have n: "0 \<le> numerator r'"
    using r' gpos by (simp add: pos_imp_zdiv_nonneg_iff)
  have "gcd p q dvd \<bar>q\<bar>" by simp
  then have "gcd p q \<le> \<bar>q\<bar>"
    using q by (intro zdvd_imp_le) simp_all
  then have d: "0 < denominator r'"
    using r' gpos by (simp add: pos_imp_zdiv_pos_iff)
  have eq: "negate r' = Rational_new (numerator r') (denominator r')"
    using assms(2) by (simp add: negate_def)
  from d have dn: "denominator r' \<noteq> 0" by simp
  show "\<exists>r''. negate r' = Inr r''"
    using eq Rational_new_eq [OF dn] by simp
  show "negate r' = Inr r'' \<Longrightarrow> \<not> isNegative r''"
    using eq Rational_new_eq [OF dn, of "numerator r'"] n d by auto
qed

lemma negations_left_negate:
  assumes "isNegative r" and "negate r = Inr r'"
  shows "negations_left r' < negations_left r"
proof (cases "isNegative r'")
  case False
  then show ?thesis using assms by (simp add: negations_left_def)
next
  case True
  obtain r'' where r'': "negate r' = Inr r''"
    using negate_negative_output(2) [OF assms(2) True] by blast
  then have "\<not> isNegative r''"
    using negate_negative_output(1) [OF assms(2) True] by blast
  then have "negations_left r' = 1"
    using True r'' by (simp add: negations_left_def)
  moreover have "negations_left r = 2"
    using True assms by (simp add: negations_left_def)
  ultimately show ?thesis by simp
qed

function priv_add :: "Rational \<Rightarrow> Rational \<Rightarrow> error + Rational"
  and priv_subtract :: "Rational \<Rightarrow> Rational \<Rightarrow> error + Rational" where
  "priv_add x y =
     (if isNegative x then
        (case negate x of
           Inl e \<Rightarrow> Inl e
         | Inr nx \<Rightarrow> priv_subtract y nx)
      else if isNegative y then
        (case negate y of
           Inl e \<Rightarrow> Inl e
         | Inr ny \<Rightarrow> priv_subtract x ny)
      else
        Rational_new
          (numerator x * denominator y + numerator y * denominator x)
          (denominator x * denominator y))"
| "priv_subtract x y =
     (if isNegative x then
        (case negate x of
           Inl e \<Rightarrow> Inl e
         | Inr nx \<Rightarrow>
             (case priv_add nx y of
                Inl e \<Rightarrow> Inl e
              | Inr s \<Rightarrow> negate s))
      else
        Rational_new
          (numerator x * denominator y - numerator y * denominator x)
          (denominator x * denominator y))"
  by pat_completeness auto
termination
proof (relation "measure (\<lambda>v. case v of
     Inl (x, y) \<Rightarrow> negations_left x + negations_left y
   | Inr (x, y) \<Rightarrow> negations_left x + negations_left y)")
  show "wf (measure (\<lambda>v. case v of
     Inl (x, y) \<Rightarrow> negations_left x + negations_left y
   | Inr (x, y) \<Rightarrow> negations_left x + negations_left y))"
    by simp
qed (auto dest: negations_left_negate)

declare priv_add.simps [simp del] priv_subtract.simps [simp del]

definition priv_multiply :: "Rational \<Rightarrow> Rational \<Rightarrow> error + Rational" where
  "priv_multiply x y =
     Rational_new (numerator x * numerator y) (denominator x * denominator y)"


text \<open>
  The variadic entry points fold the binary operation over the arguments with
  \<^verbatim>\<open>Array.prototype.reduce\<close>; an exception thrown by a step ends the fold.
\<close>

fun reduce :: "('a \<Rightarrow> 'b \<Rightarrow> error + 'a) \<Rightarrow> 'b list \<Rightarrow> 'a \<Rightarrow> error + 'a" where
  "reduce f [] acc = Inr acc"
| "reduce f (cur # rest) acc =
     (case f acc cur of Inl e \<Rightarrow> Inl e | Inr acc' \<Rightarrow> reduce f rest acc')"

definition Rational_add :: "Rational list \<Rightarrow> error + Rational" where
  "Rational_add theArgs =
     (case Rational_new 0 1 of Inl e \<Rightarrow> Inl e | Inr init \<Rightarrow> reduce priv_add theArgs init)"

definition Rational_subtract :: "Rational \<Rightarrow> Rational list \<Rightarrow> error + Rational" where
  "Rational_subtract x theArgs = reduce priv_subtract theArgs x"

definition Rational_multiply :: "Rational list \<Rightarrow> error + Rational" where
  "Rational_multiply theArgs =
     (case Rational_new 1 1 of Inl e \<Rightarrow> Inl e | Inr init \<Rightarrow> reduce priv_multiply theArgs init)"

definition cmp :: "Rational \<Rightarrow> Rational \<Rightarrow> int" where
  "cmp this x =
     (let a = (if isNegative this then minusOne else 1) * numerator this * denominator x;
          b = (if isNegative x then minusOne else 1) * numerator x * denominator this
      in if a < b then - 1 else if b < a then 1 else 0)"

section \<open>Decimal expansion\<close>

subsection \<open>Strings of digits\<close>

definition digit_char :: "nat \<Rightarrow> char" where
  "digit_char d = ''0123456789'' ! d"

definition is_digit :: "char \<Rightarrow> bool" where
  "is_digit c = (c \<in> set ''0123456789'')"

definition is_nonzero_digit :: "char \<Rightarrow> bool" where
  "is_nonzero_digit c = (c \<in> set ''123456789'')"

text \<open>Decimal digits of a natural number, most significant first, with no leading zero.\<close>

function nat_toString :: "nat \<Rightarrow> string" where
  "nat_toString n =
     (if n < 10 then [digit_char n] else nat_toString (n div 10) @ [digit_char (n mod 10)])"
  by pat_completeness auto
termination
  by (relation "measure id") auto

declare nat_toString.simps [simp del]

text \<open>\<^verbatim>\<open>q.toString()\<close> of a JSBI value, and the rendering of an integral number.\<close>

definition JSBI_toString :: "int \<Rightarrow> string" where
  "JSBI_toString q = (if q < 0 then ''-'' @ nat_toString (nat (- q)) else nat_toString (nat q))"

text \<open>
  What the generator yields: \<^verbatim>\<open>parseInt\<close> of one character is the digit's value, or NaN
  when the character is not a digit; \<^verbatim>\<open>-1\<close> marks the decimal point.
\<close>

datatype Digit = Val int | NotANumber

definition parseInt_char :: "char \<Rightarrow> Digit" where
  "parseInt_char c = (if is_digit c then Val (int (of_char c) - 48) else NotANumber)"

definition Digit_toString :: "Digit \<Rightarrow> string" where
  "Digit_toString v = (case v of Val k \<Rightarrow> JSBI_toString k | NotANumber \<Rightarrow> ''NaN'')"

text \<open>
  Modelled from the spec: \<^verbatim>\<open>countSignificantDigits\<close> of \<^verbatim>\<open>common.mts\<close>, which is not among the
  sources. The spec gives it as the count of the digits of a digit string, leading zeros
  before the first nonzero digit excluded. The generator strips a decimal point only when
  it ends the string, so strings with an inner point reach the counter; a point is not a
  digit and is not counted.
\<close>

definition countSignificantDigits :: "string \<Rightarrow> nat" where
  "countSignificantDigits s =
     length (filter is_digit (dropWhile (\<lambda>c. \<not> is_nonzero_digit c) s))"

text \<open>\<^verbatim>\<open>result.match(/[.]$/)\<close> and \<^verbatim>\<open>result.replace(".", "")\<close> (the first point only).\<close>

definition ends_with_point :: "string \<Rightarrow> bool" where
  "ends_with_point s = (s \<noteq> [] \<and> last s = CHR ''.'')"

fun replace_first_point :: "string \<Rightarrow> string" where
  "replace_first_point [] = []"
| "replace_first_point (c # cs) = (if c = CHR ''.'' then cs else c # replace_first_point cs)"

subsection \<open>The digit generator\<close>

text \<open>
  The local variables of \<^verbatim>\<open>nextDigitForDivision\<close>, with the sequence of the values
  yielded so far. The caller drains the generator, so the sequence it sees is the
  sequence yielded up to the return.
\<close>

record division_state =
  gen_result :: string
  emittedDecimalPoint :: bool
  gen_done :: bool
  gen_x :: int
  yielded :: "Digit list"

definition loop_guard :: "int \<Rightarrow> division_state \<Rightarrow> bool" where
  "loop_guard n s =
     (\<not> gen_done s \<and>
      int (countSignificantDigits
             (if ends_with_point (gen_result s) then replace_first_point (gen_result s)
              else gen_result s)) < n)"

definition loop_body :: "int \<Rightarrow> division_state \<Rightarrow> error + division_state" where
  "loop_body y s =
     (if gen_x s = 0 then Inr (s\<lparr>gen_done := True\<rparr>)
      else if gen_x s < y then
        (if emittedDecimalPoint s then
           (let s1 = s\<lparr>gen_x := gen_x s * 10\<rparr>
            in if gen_x s1 < y
               then Inr (s1\<lparr>gen_result := gen_result s1 @ ''0'',
                              yielded := yielded s1 @ [Val 0]\<rparr>)
               else Inr s1)
         else
           (let s1 = s\<lparr>emittedDecimalPoint := True,
                           gen_result := (if gen_result s = [] then ''0'' else gen_result s) @ ''.'',
                           gen_x := gen_x s * 10,
                           yielded := yielded s @ [Val (- 1)]\<rparr>
            in if gen_x s1 < y
               then Inr (s1\<lparr>gen_result := gen_result s1 @ ''0'',
                              yielded := yielded s1 @ [Val 0]\<rparr>)
               else Inr s1))
      else
        (case JSBI_divide (gen_x s) y of
           Inl e \<Rightarrow> Inl e
         | Inr q \<Rightarrow>
             (case JSBI_remainder (gen_x s) y of
                Inl e \<Rightarrow> Inl e
              | Inr r \<Rightarrow>
                  (let qString = JSBI_toString q
                   in Inr (s\<lparr>gen_x := r,
                                gen_result := gen_result s @ qString,
                                yielded := yielded s @ map parseInt_char qString\<rparr>)))))"

text \<open>The \<^verbatim>\<open>while\<close> loop; \<open>None\<close> stands for a loop that never ends.\<close>

partial_function (option) nextDigitForDivision_loop ::
  "int \<Rightarrow> int \<Rightarrow> division_state \<Rightarrow> (error + division_state) option" where
  "nextDigitForDivision_loop y n s =
     (if loop_guard n s then
        (case loop_body y s of
           Inl e \<Rightarrow> Some (Inl e)
         | Inr s' \<Rightarrow> nextDigitForDivision_loop y n s')
      else Some (Inr s))"

declare nextDigitForDivision_loop.simps [code]

definition nextDigitForDivision :: "int \<Rightarrow> int \<Rightarrow> int \<Rightarrow> (error + Digit list) option" where
  "nextDigitForDivision x y n =
     (case nextDigitForDivision_loop y n
             \<lparr>gen_result = [], emittedDecimalPoint = False, gen_done = False,
              gen_x = x, yielded = []\<rparr> of
        None \<Rightarrow> None
      | Some (Inl e) \<Rightarrow> Some (Inl e)
      | Some (Inr s) \<Rightarrow> Some (Inr (yielded s)))"

subsection \<open>Rendering\<close>

text \<open>
  The argument \<^verbatim>\<open>n\<close> of \<^verbatim>\<open>toDecimalPlaces\<close> is a JavaScript number: a finite value, which
  is a rational, or NaN or an infinity.
\<close>

datatype number = Finite rat | NaN | PosInfinity | NegInfinity

definition Number_isInteger :: "number \<Rightarrow> bool" where
  "Number_isInteger n = (case n of Finite r \<Rightarrow> of_int \<lfloor>r\<rfloor> = r | _ \<Rightarrow> False)"

definition number_less_zero :: "number \<Rightarrow> bool" where
  "number_less_zero n = (case n of Finite r \<Rightarrow> r < 0 | NegInfinity \<Rightarrow> True | _ \<Rightarrow> False)"

definition integer_of :: "number \<Rightarrow> int" where
  "integer_of n = (case n of Finite r \<Rightarrow> \<lfloor>r\<rfloor> | _ \<Rightarrow> 0)"

text \<open>The consuming loop of \<^verbatim>\<open>toDecimalPlaces\<close> over the yielded values.\<close>

fun render :: "Digit list \<Rightarrow> string \<Rightarrow> string" where
  "render [] result = result"
| "render (v # vs) result =
     render vs
       (if v = Val (- 1) then (if result = [] then ''0'' else result) @ ''.''
        else result @ Digit_toString v)"

definition toDecimalPlaces :: "Rational \<Rightarrow> number \<Rightarrow> (error + string) option" where
  "toDecimalPlaces this n =
     (if \<not> Number_isInteger n then Some (Inl TypeError)
      else if number_less_zero n then Some (Inl RangeError)
      else if numerator this = 0 then Some (Inr ''0'')
      else
        (case nextDigitForDivision (numerator this) (denominator this) (integer_of n) of
           None \<Rightarrow> None
         | Some (Inl e) \<Rightarrow> Some (Inl e)
         | Some (Inr digits) \<Rightarrow>
             Some (Inr ((if isNegative this then ''-'' else []) @ render digits []))))"

section \<open>Notions used to state the properties\<close>

text \<open>
  The order in which the states of the division loop decrease: the digits the budget still
  allows, then the flag \<^verbatim>\<open>done\<close>, then the distance of \<^verbatim>\<open>x\<close> below \<^verbatim>\<open>y\<close>.
\<close>

definition loop_order :: "int \<Rightarrow> int \<Rightarrow> (division_state \<times> division_state) set" where
  "loop_order y n =
     measures
       [\<lambda>s. nat (n - int (countSignificantDigits (gen_result s))),
        \<lambda>s. if gen_done s then 0 else 1,
        \<lambda>s. nat (y - gen_x s)]"

text \<open>
  The exact decimal expansion of \<open>X / Y\<close> for \<open>0 \<le> X\<close> and \<open>0 < Y\<close>, independent of the
  generator: the \<open>i\<close>-th digit after the point is \<open>\<lfloor>X \<sqdot> 10\<^sup>i / Y\<rfloor> mod 10\<close>, and the expansion to
  \<open>k\<close> places is the integer part, the point and the first \<open>k\<close> of these digits.
\<close>

definition frac_digit :: "int \<Rightarrow> int \<Rightarrow> nat \<Rightarrow> nat" where
  "frac_digit X Y i = nat (X * 10 ^ i div Y mod 10)"

definition decimal_expansion :: "int \<Rightarrow> int \<Rightarrow> nat \<Rightarrow> string" where
  "decimal_expansion X Y k =
     nat_toString (nat (X div Y)) @ ''.'' @ map (\<lambda>i. digit_char (frac_digit X Y i)) [1..<Suc k]"

text \<open>
  The states of the division loop: nothing emitted yet; the integer part emitted; or the
  expansion to \<open>k\<close> places emitted, with \<^verbatim>\<open>x\<close> the remainder they leave, or ten times it when
  the next digit is not zero and still to be taken.
\<close>

definition expansion_state :: "int \<Rightarrow> int \<Rightarrow> division_state \<Rightarrow> bool" where
  "expansion_state X Y s \<longleftrightarrow>
     (gen_result s = [] \<and> \<not> emittedDecimalPoint s \<and> gen_x s = X)
     \<or> (\<not> emittedDecimalPoint s \<and> gen_result s = nat_toString (nat (X div Y))
          \<and> gen_x s = X mod Y)
     \<or> (emittedDecimalPoint s
          \<and> (\<exists>k. gen_result s = decimal_expansion X Y k
                \<and> (gen_x s = X * 10 ^ k mod Y
                     \<or> (gen_x s = 10 * (X * 10 ^ k mod Y) \<and> Y \<le> gen_x s))))"

text \<open>
  The digit budget: once something is emitted, \<^verbatim>\<open>x\<close> is below \<open>10 \<sqdot> y\<close>, so a turn emits at
  most one digit, and the count stays within the larger of \<open>n\<close> and the digits of the
  integer part.
\<close>

definition budget_state :: "int \<Rightarrow> int \<Rightarrow> int \<Rightarrow> division_state \<Rightarrow> bool" where
  "budget_state X Y n s \<longleftrightarrow>
     (gen_result s = [] \<and> \<not> emittedDecimalPoint s \<and> gen_x s = X)
     \<or> (gen_result s \<noteq> [] \<and> gen_x s < 10 * Y
          \<and> int (countSignificantDigits (gen_result s))
               \<le> max n (int (countSignificantDigits (nat_toString (nat (X div Y))))))"

section \<open>Properties of the constructor\<close>

lemma Rational_new_Inr_iff: "(\<exists>r. Rational_new p q = Inr r) \<longleftrightarrow> q \<noteq> 0"
  by (auto simp: Rational_new_eq) (simp add: Rational_new_def)

lemma Rational_new_props:
  assumes "Rational_new p q = Inr r"
  shows "q \<noteq> 0"
    and "0 \<le> numerator r"
    and "0 < denominator r"
    and "gcd (numerator r) (denominator r) = 1"
    and "isNegative r = ((p < 0) \<noteq> (q < 0))"
    and "numerator r * \<bar>q\<bar> = \<bar>p\<bar> * denominator r"
proof -
  show q: "q \<noteq> 0"
    using assms by (auto simp: Rational_new_def)
  have r: "r = \<lparr>numerator = \<bar>p\<bar> div gcd p q, denominator = \<bar>q\<bar> div gcd p q,
        isNegative = ((p < 0) \<noteq> (q < 0))\<rparr>"
    using assms Rational_new_eq [OF q, of p] by simp
  have gpos: "0 < gcd p q"
    using q by (simp add: gcd_pos_int)
  show "0 \<le> numerator r"
    using r gpos by (simp add: pos_imp_zdiv_nonneg_iff)
  have "gcd p q dvd \<bar>q\<bar>" by simp
  then have "gcd p q \<le> \<bar>q\<bar>"
    using q by (intro zdvd_imp_le) simp_all
  then show "0 < denominator r"
    using r gpos by (simp add: pos_imp_zdiv_pos_iff)
  have "coprime (\<bar>p\<bar> div gcd \<bar>p\<bar> \<bar>q\<bar>) (\<bar>q\<bar> div gcd \<bar>p\<bar> \<bar>q\<bar>)"
    using q by (intro div_gcd_coprime) simp
  then show "gcd (numerator r) (denominator r) = 1"
    using r by (simp add: coprime_iff_gcd_eq_1)
  show "isNegative r = ((p < 0) \<noteq> (q < 0))"
    using r by simp
  have "gcd p q dvd \<bar>p\<bar>" by simp
  then have "\<bar>p\<bar> div gcd p q * \<bar>q\<bar> = \<bar>p\<bar> * \<bar>q\<bar> div gcd p q"
    by (rule dvd_div_mult)
  moreover have "\<bar>p\<bar> * (\<bar>q\<bar> div gcd p q) = \<bar>p\<bar> * \<bar>q\<bar> div gcd p q"
    using \<open>gcd p q dvd \<bar>q\<bar>\<close> by (rule div_mult_swap)
  ultimately show "numerator r * \<bar>q\<bar> = \<bar>p\<bar> * denominator r"
    using r by simp
qed

text \<open>
  C5: for all integers \<open>p\<close> and \<open>q\<close> with \<open>q\<close> nonzero, the constructor yields a Rational
  with a positive denominator, a non-negative numerator and
  \<open>gcd numerator denominator = 1\<close>. The Euclidean loop returns on these inputs, with the
  greatest common divisor of the two magnitudes, and each remainder it takes is strictly
  smaller in magnitude than the divisor.
\<close>

theorem constructor_lowest_terms:
  "q \<noteq> 0 \<Longrightarrow>
     (\<exists>r. Rational_new p q = Inr r \<and> 0 < denominator r \<and> 0 \<le> numerator r
           \<and> gcd (numerator r) (denominator r) = 1)
     \<and> gcd_loop \<bar>p\<bar> \<bar>q\<bar> = gcd p q
     \<and> (\<forall>a b. b \<noteq> 0 \<longrightarrow> \<bar>trunc_rem a b\<bar> < \<bar>b\<bar>)"
proof -
  assume q: "q \<noteq> 0"
  then obtain r where r: "Rational_new p q = Inr r"
    using Rational_new_Inr_iff [of p q] by auto
  have "\<exists>r. Rational_new p q = Inr r \<and> 0 < denominator r \<and> 0 \<le> numerator r
           \<and> gcd (numerator r) (denominator r) = 1"
    using r Rational_new_props(2-4) [OF r] by simp
  moreover have "gcd_loop \<bar>p\<bar> \<bar>q\<bar> = gcd p q"
    using gcd_loop_eq [of "\<bar>p\<bar>" "\<bar>q\<bar>"] by simp
  moreover have "\<forall>a b::int. b \<noteq> 0 \<longrightarrow> \<bar>trunc_rem a b\<bar> < \<bar>b\<bar>"
    by (simp add: abs_trunc_rem)
  ultimately show ?thesis by simp
qed

theorem constructor_lowest_terms_witness:
  "(- 4 :: int) \<noteq> 0 \<and>
     (\<exists>r. Rational_new 6 (- 4) = Inr r \<and> 0 < denominator r \<and> 0 \<le> numerator r
           \<and> gcd (numerator r) (denominator r) = 1)
     \<and> gcd_loop \<bar>6\<bar> \<bar>- 4\<bar> = gcd 6 (- 4 :: int)
     \<and> (4 :: int) \<noteq> 0 \<and> \<bar>trunc_rem 6 4\<bar> < \<bar>4 :: int\<bar>"
proof -
  note t = constructor_lowest_terms [of "- 4" 6]
  from t have "\<forall>a b::int. b \<noteq> 0 \<longrightarrow> \<bar>trunc_rem a b\<bar> < \<bar>b\<bar>"
    by simp
  then have "(4 :: int) \<noteq> 0 \<longrightarrow> \<bar>trunc_rem 6 4\<bar> < \<bar>4 :: int\<bar>"
    by blast
  then have "\<bar>trunc_rem 6 4\<bar> < \<bar>4 :: int\<bar>"
    by simp
  with t show ?thesis by simp
qed

text \<open>
  C3: every Rational of value zero that the constructor produces is the one canonical zero
  (numerator 0, denominator 1, not negative). The constructor breaks this for a zero
  numerator over a negative denominator: \<^verbatim>\<open>new Rational(0, -1)\<close> takes the branch for a
  negative denominator and sets the sign flag on a value that is zero.
\<close>

theorem constructor_negative_zero:
  "Rational_new 0 (- 1) = Inr \<lparr>numerator = 0, denominator = 1, isNegative = True\<rparr>"
  by (simp add: Rational_new_eq)

section \<open>Properties of the arithmetic operators\<close>

text \<open>
  C1: \<^verbatim>\<open>multiply(x, y)\<close> returns the exact product, negative when exactly one operand is
  negative. The code multiplies the magnitudes and never reads a sign flag: the product of
  \<open>-1/2\<close> and \<open>1/3\<close> comes out as \<open>1/6\<close>, not negative, and its value is not the product
  of the operands' values.
\<close>

theorem multiply_loses_sign:
  "Rational_new (- 1) 2 = Inr \<lparr>numerator = 1, denominator = 2, isNegative = True\<rparr>
   \<and> Rational_new 1 3 = Inr \<lparr>numerator = 1, denominator = 3, isNegative = False\<rparr>
   \<and> Rational_multiply
         [\<lparr>numerator = 1, denominator = 2, isNegative = True\<rparr>,
          \<lparr>numerator = 1, denominator = 3, isNegative = False\<rparr>]
       = Inr \<lparr>numerator = 1, denominator = 6, isNegative = False\<rparr>
   \<and> value_of \<lparr>numerator = 1, denominator = 6, isNegative = False\<rparr>
       \<noteq> value_of \<lparr>numerator = 1, denominator = 2, isNegative = True\<rparr>
         * value_of \<lparr>numerator = 1, denominator = 3, isNegative = False\<rparr>"
proof -
  have "Rational_new (- 1) 2 = Inr \<lparr>numerator = 1, denominator = 2, isNegative = True\<rparr>"
    by code_simp
  moreover have "Rational_new 1 3 = Inr \<lparr>numerator = 1, denominator = 3, isNegative = False\<rparr>"
    by code_simp
  moreover have "Rational_multiply
         [\<lparr>numerator = 1, denominator = 2, isNegative = True\<rparr>,
          \<lparr>numerator = 1, denominator = 3, isNegative = False\<rparr>]
       = Inr \<lparr>numerator = 1, denominator = 6, isNegative = False\<rparr>"
    by code_simp
  moreover have "value_of \<lparr>numerator = 1, denominator = 6, isNegative = False\<rparr>
       \<noteq> value_of \<lparr>numerator = 1, denominator = 2, isNegative = True\<rparr>
         * value_of \<lparr>numerator = 1, denominator = 3, isNegative = False\<rparr>"
    by (simp add: value_of_def)
  ultimately show ?thesis by simp
qed

text \<open>
  C2: for every sign combination, \<^verbatim>\<open>subtract(x, y)\<close> is the normalized Rational of value
  \<open>value x - value y\<close>. The code subtracts the magnitude of \<open>y\<close> whenever \<open>x\<close> is not
  negative, without reading the sign flag of \<open>y\<close>: \<open>1/2 - (-1/3)\<close> comes out as \<open>1/6\<close>,
  where the difference of the values is \<open>5/6\<close>. The sibling \<^verbatim>\<open>_add\<close> does test the sign of
  its second operand.
\<close>

theorem subtract_ignores_sign_of_second:
  "Rational_new 1 2 = Inr \<lparr>numerator = 1, denominator = 2, isNegative = False\<rparr>
   \<and> Rational_new (- 1) 3 = Inr \<lparr>numerator = 1, denominator = 3, isNegative = True\<rparr>
   \<and> Rational_subtract \<lparr>numerator = 1, denominator = 2, isNegative = False\<rparr>
         [\<lparr>numerator = 1, denominator = 3, isNegative = True\<rparr>]
       = Inr \<lparr>numerator = 1, denominator = 6, isNegative = False\<rparr>
   \<and> value_of \<lparr>numerator = 1, denominator = 2, isNegative = False\<rparr>
         - value_of \<lparr>numerator = 1, denominator = 3, isNegative = True\<rparr> = 5 / 6
   \<and> value_of \<lparr>numerator = 1, denominator = 6, isNegative = False\<rparr> = 1 / 6"
proof -
  have "Rational_new 1 2 = Inr \<lparr>numerator = 1, denominator = 2, isNegative = False\<rparr>"
    by code_simp
  moreover have "Rational_new (- 1) 3 = Inr \<lparr>numerator = 1, denominator = 3, isNegative = True\<rparr>"
    by code_simp
  moreover have "Rational_subtract \<lparr>numerator = 1, denominator = 2, isNegative = False\<rparr>
         [\<lparr>numerator = 1, denominator = 3, isNegative = True\<rparr>]
       = Inr \<lparr>numerator = 1, denominator = 6, isNegative = False\<rparr>"
    by code_simp
  moreover have "value_of \<lparr>numerator = 1, denominator = 2, isNegative = False\<rparr>
         - value_of \<lparr>numerator = 1, denominator = 3, isNegative = True\<rparr> = 5 / 6"
    by (simp add: value_of_def)
  moreover have "value_of \<lparr>numerator = 1, denominator = 6, isNegative = False\<rparr> = 1 / 6"
    by (simp add: value_of_def)
  ultimately show ?thesis by simp
qed

text \<open>
  C7: \<^verbatim>\<open>add()\<close> is \<open>0/1\<close> and \<^verbatim>\<open>multiply()\<close> is \<open>1/1\<close>, \<^verbatim>\<open>add(x)\<close> and \<^verbatim>\<open>multiply(x)\<close> equal
  \<open>x\<close> for every Rational \<open>x\<close>, and both are associative. The empty calls do return the
  identities, but \<^verbatim>\<open>multiply(x)\<close> is \<open>1/1\<close> times \<open>x\<close> with the sign of \<open>x\<close> lost:
  for \<open>x = -1/2\<close> it returns \<open>1/2\<close>.
\<close>

theorem multiply_single_loses_sign:
  "Rational_add [] = Inr \<lparr>numerator = 0, denominator = 1, isNegative = False\<rparr>
   \<and> Rational_multiply [] = Inr \<lparr>numerator = 1, denominator = 1, isNegative = False\<rparr>
   \<and> Rational_new (- 1) 2 = Inr \<lparr>numerator = 1, denominator = 2, isNegative = True\<rparr>
   \<and> Rational_multiply [\<lparr>numerator = 1, denominator = 2, isNegative = True\<rparr>]
       = Inr \<lparr>numerator = 1, denominator = 2, isNegative = False\<rparr>"
proof -
  have "Rational_add [] = Inr \<lparr>numerator = 0, denominator = 1, isNegative = False\<rparr>"
    by code_simp
  moreover have "Rational_multiply [] = Inr \<lparr>numerator = 1, denominator = 1, isNegative = False\<rparr>"
    by code_simp
  moreover have "Rational_new (- 1) 2 = Inr \<lparr>numerator = 1, denominator = 2, isNegative = True\<rparr>"
    by code_simp
  moreover have "Rational_multiply [\<lparr>numerator = 1, denominator = 2, isNegative = True\<rparr>]
       = Inr \<lparr>numerator = 1, denominator = 2, isNegative = False\<rparr>"
    by code_simp
  ultimately show ?thesis by simp
qed

section \<open>Properties of the comparator\<close>

text \<open>
  C6: \<^verbatim>\<open>cmp\<close> compares the signed cross products, agrees with the comparison of the values,
  is antisymmetric and transitive, and returns 0 exactly when the two triples are
  identical. The last part fails on the two zeros the constructor can produce:
  \<^verbatim>\<open>new Rational(0, -1)\<close> and \<^verbatim>\<open>new Rational(0, 1)\<close> compare as equal and differ in the sign
  flag.
\<close>

theorem cmp_equal_on_distinct_zeros:
  "Rational_new 0 (- 1) = Inr \<lparr>numerator = 0, denominator = 1, isNegative = True\<rparr>
   \<and> Rational_new 0 1 = Inr \<lparr>numerator = 0, denominator = 1, isNegative = False\<rparr>
   \<and> cmp \<lparr>numerator = 0, denominator = 1, isNegative = True\<rparr>
          \<lparr>numerator = 0, denominator = 1, isNegative = False\<rparr> = 0
   \<and> \<lparr>numerator = 0, denominator = 1, isNegative = True\<rparr>
       \<noteq> \<lparr>numerator = 0, denominator = 1, isNegative = False\<rparr>"
  by (simp add: Rational_new_eq cmp_def)

section \<open>Digit strings and the significant-digit count\<close>

lemma digit_cases:
  assumes "d < (10::nat)"
  obtains "d = 0" | "d = 1" | "d = 2" | "d = 3" | "d = 4" | "d = 5" | "d = 6" | "d = 7"
    | "d = 8" | "d = 9"
proof -
  have "d = 0 \<or> d = 1 \<or> d = 2 \<or> d = 3 \<or> d = 4 \<or> d = 5 \<or> d = 6 \<or> d = 7 \<or> d = 8 \<or> d = 9"
    using assms by arith
  then show thesis
    using that by blast
qed

lemma is_digit_digit_char: "d < 10 \<Longrightarrow> is_digit (digit_char d)"
  by (erule digit_cases) (simp_all add: is_digit_def digit_char_def)

lemma is_nonzero_digit_digit_char: "d < 10 \<Longrightarrow> is_nonzero_digit (digit_char d) \<longleftrightarrow> d \<noteq> 0"
  by (erule digit_cases) (simp_all add: is_nonzero_digit_def digit_char_def)

lemma parseInt_digit_char: "d < 10 \<Longrightarrow> parseInt_char (digit_char d) = Val (int d)"
  by (erule digit_cases) (simp_all add: parseInt_char_def is_digit_def digit_char_def)

lemma nonzero_digit_is_digit: "is_nonzero_digit c \<Longrightarrow> is_digit c"
  by (auto simp: is_nonzero_digit_def is_digit_def)

lemma nat_toString_small: "n < 10 \<Longrightarrow> nat_toString n = [digit_char n]"
  by (simp add: nat_toString.simps [of n])

lemma nat_toString_digits: "\<forall>c\<in>set (nat_toString n). is_digit c"
proof (induction n rule: nat_toString.induct)
  case (1 n)
  show ?case
  proof (cases "n < 10")
    case True
    then show ?thesis by (simp add: nat_toString_small is_digit_digit_char)
  next
    case False
    then have "nat_toString n = nat_toString (n div 10) @ [digit_char (n mod 10)]"
      by (simp add: nat_toString.simps [of n])
    moreover have "is_digit (digit_char (n mod 10))"
      by (simp add: is_digit_digit_char)
    ultimately show ?thesis using 1 False by simp
  qed
qed

lemma nat_toString_leading:
  "0 < n \<Longrightarrow> \<exists>c cs. nat_toString n = c # cs \<and> is_nonzero_digit c"
proof (induction n rule: nat_toString.induct)
  case (1 n)
  show ?case
  proof (cases "n < 10")
    case True
    then show ?thesis using "1.prems"
      by (simp add: nat_toString_small is_nonzero_digit_digit_char)
  next
    case False
    then have eq: "nat_toString n = nat_toString (n div 10) @ [digit_char (n mod 10)]"
      by (simp add: nat_toString.simps [of n])
    from False have "0 < n div 10" by simp
    with 1 False obtain c cs where "nat_toString (n div 10) = c # cs" "is_nonzero_digit c"
      by blast
    then show ?thesis using eq by simp
  qed
qed

lemma render_append: "render (a @ b) r = render b (render a r)"
  by (induction a arbitrary: r) simp_all

lemma Digit_toString_digit: "d < 10 \<Longrightarrow> Digit_toString (Val (int d)) = [digit_char d]"
  by (simp add: Digit_toString_def JSBI_toString_def nat_toString_small)

lemma render_digits: "render (map parseInt_char (nat_toString n)) r = r @ nat_toString n"
proof (induction n arbitrary: r rule: nat_toString.induct)
  case (1 n)
  have one: "render [parseInt_char (digit_char d)] r' = r' @ [digit_char d]" if "d < 10" for d r'
    using that by (simp add: parseInt_digit_char Digit_toString_digit)
  show ?case
  proof (cases "n < 10")
    case True
    then show ?thesis using one [of n r] by (simp add: nat_toString_small)
  next
    case False
    then have eq: "nat_toString n = nat_toString (n div 10) @ [digit_char (n mod 10)]"
      by (simp add: nat_toString.simps [of n])
    have "render (map parseInt_char (nat_toString n)) r
        = render [parseInt_char (digit_char (n mod 10))]
            (render (map parseInt_char (nat_toString (n div 10))) r)"
      by (simp add: eq render_append)
    also have "\<dots> = render [parseInt_char (digit_char (n mod 10))] (r @ nat_toString (n div 10))"
      using 1 False by simp
    also have "\<dots> = (r @ nat_toString (n div 10)) @ [digit_char (n mod 10)]"
      by (rule one) simp
    finally show ?thesis by (simp add: eq)
  qed
qed

subsection \<open>Counting significant digits\<close>

lemma csd_append:
  "countSignificantDigits (a @ b) =
     (if \<exists>c\<in>set a. is_nonzero_digit c
      then countSignificantDigits a + length (filter is_digit b)
      else countSignificantDigits b)"
  by (auto simp: countSignificantDigits_def dropWhile_append)

lemma csd_zero_iff: "countSignificantDigits a = 0 \<longleftrightarrow> (\<forall>c\<in>set a. \<not> is_nonzero_digit c)"
proof
  assume "countSignificantDigits a = 0"
  show "\<forall>c\<in>set a. \<not> is_nonzero_digit c"
  proof (rule ccontr)
    assume "\<not> (\<forall>c\<in>set a. \<not> is_nonzero_digit c)"
    then have "dropWhile (\<lambda>c. \<not> is_nonzero_digit c) a \<noteq> []"
      by auto
    then obtain c cs where d: "dropWhile (\<lambda>c. \<not> is_nonzero_digit c) a = c # cs"
      by (cases "dropWhile (\<lambda>c. \<not> is_nonzero_digit c) a") auto
    then have "is_nonzero_digit c"
      using hd_dropWhile [of "\<lambda>c. \<not> is_nonzero_digit c" a] by auto
    then have "is_digit c" by (rule nonzero_digit_is_digit)
    with d \<open>countSignificantDigits a = 0\<close> show False
      by (simp add: countSignificantDigits_def)
  qed
next
  assume "\<forall>c\<in>set a. \<not> is_nonzero_digit c"
  then have "dropWhile (\<lambda>c. \<not> is_nonzero_digit c) a = []"
    by (simp only: dropWhile_eq_Nil_conv)
  then have "filter is_digit (dropWhile (\<lambda>c. \<not> is_nonzero_digit c) a) = filter is_digit []"
    by (rule arg_cong)
  then show "countSignificantDigits a = 0"
    unfolding countSignificantDigits_def by simp
qed

lemma csd_point: "countSignificantDigits (a @ ''.'') = countSignificantDigits a"
proof (cases "\<exists>c\<in>set a. is_nonzero_digit c")
  case True
  then show ?thesis by (simp add: csd_append is_digit_def)
next
  case False
  then have "countSignificantDigits a = 0" by (simp add: csd_zero_iff)
  moreover have "countSignificantDigits ''.'' = 0"
    by (simp add: countSignificantDigits_def is_nonzero_digit_def)
  ultimately show ?thesis
    using False by (simp add: csd_append)
qed

lemma csd_snoc_le: "countSignificantDigits (a @ [c]) \<le> Suc (countSignificantDigits a)"
proof (cases "\<exists>c\<in>set a. is_nonzero_digit c")
  case True
  then show ?thesis by (simp add: csd_append)
next
  case False
  moreover have "countSignificantDigits [c] \<le> 1"
    by (simp add: countSignificantDigits_def)
  ultimately show ?thesis
    by (simp add: csd_append)
qed

lemma csd_snoc_ge: "countSignificantDigits a \<le> countSignificantDigits (a @ [c])"
proof (cases "\<exists>c\<in>set a. is_nonzero_digit c")
  case True
  then show ?thesis by (simp add: csd_append)
next
  case False
  then have "countSignificantDigits a = 0" by (simp add: csd_zero_iff)
  then show ?thesis by simp
qed

lemma csd_nat_toString: "0 < n \<Longrightarrow> countSignificantDigits (nat_toString n) = length (nat_toString n)"
proof -
  assume "0 < n"
  then obtain c cs where eq: "nat_toString n = c # cs" and c: "is_nonzero_digit c"
    using nat_toString_leading by blast
  have "\<forall>c\<in>set (nat_toString n). is_digit c"
    by (rule nat_toString_digits)
  then have "filter is_digit (c # cs) = c # cs"
    unfolding eq by (simp only: filter_id_conv)
  then show ?thesis
    using c by (simp add: eq countSignificantDigits_def)
qed

lemma csd_append_number:
  assumes "0 < n"
  shows "countSignificantDigits (a @ nat_toString n)
           = countSignificantDigits a + length (nat_toString n)"
proof (cases "\<exists>c\<in>set a. is_nonzero_digit c")
  case True
  have "\<forall>c\<in>set (nat_toString n). is_digit c"
    by (rule nat_toString_digits)
  then have "filter is_digit (nat_toString n) = nat_toString n"
    by (simp only: filter_id_conv)
  with True show ?thesis by (simp add: csd_append)
next
  case False
  then have "countSignificantDigits a = 0" by (simp add: csd_zero_iff)
  with False assms show ?thesis by (simp add: csd_append csd_nat_toString)
qed

lemma filter_digit_replace_first_point:
  "filter is_digit (replace_first_point s) = filter is_digit s"
  by (induction s) (simp_all add: is_digit_def)

lemma csd_replace_first_point:
  "countSignificantDigits (replace_first_point s) = countSignificantDigits s"
proof (induction s)
  case Nil
  then show ?case by simp
next
  case (Cons c cs)
  show ?case
  proof (cases "c = CHR ''.''")
    case True
    then show ?thesis
      by (simp add: countSignificantDigits_def is_nonzero_digit_def)
  next
    case False
    show ?thesis
    proof (cases "is_nonzero_digit c")
      case True
      with False show ?thesis
        by (simp add: countSignificantDigits_def filter_digit_replace_first_point)
    next
      case nz: False
      with False Cons show ?thesis
        by (simp add: countSignificantDigits_def)
    qed
  qed
qed

lemma loop_guard_eq:
  "loop_guard n s \<longleftrightarrow> \<not> gen_done s \<and> int (countSignificantDigits (gen_result s)) < n"
  by (simp add: loop_guard_def csd_replace_first_point)

section \<open>One turn of the division loop\<close>

lemma loop_body_cases [consumes 3, case_names exact scale_zero scale point_zero point divide]:
  assumes "0 < y" and "0 \<le> gen_x s" and "loop_body y s = Inr s1"
  obtains
    (exact) "gen_x s = 0" "s1 = s\<lparr>gen_done := True\<rparr>"
  | (scale_zero) "0 < gen_x s" "gen_x s < y" "emittedDecimalPoint s" "gen_x s * 10 < y"
      "s1 = s\<lparr>gen_x := gen_x s * 10, gen_result := gen_result s @ ''0'',
              yielded := yielded s @ [Val 0]\<rparr>"
  | (scale) "0 < gen_x s" "gen_x s < y" "emittedDecimalPoint s" "y \<le> gen_x s * 10"
      "s1 = s\<lparr>gen_x := gen_x s * 10\<rparr>"
  | (point_zero) "0 < gen_x s" "gen_x s < y" "\<not> emittedDecimalPoint s" "gen_x s * 10 < y"
      "s1 = s\<lparr>emittedDecimalPoint := True,
              gen_result := (if gen_result s = [] then ''0'' else gen_result s) @ ''.0'',
              gen_x := gen_x s * 10,
              yielded := yielded s @ [Val (- 1), Val 0]\<rparr>"
  | (point) "0 < gen_x s" "gen_x s < y" "\<not> emittedDecimalPoint s" "y \<le> gen_x s * 10"
      "s1 = s\<lparr>emittedDecimalPoint := True,
              gen_result := (if gen_result s = [] then ''0'' else gen_result s) @ ''.'',
              gen_x := gen_x s * 10,
              yielded := yielded s @ [Val (- 1)]\<rparr>"
  | (divide) "y \<le> gen_x s"
      "s1 = s\<lparr>gen_x := gen_x s mod y,
              gen_result := gen_result s @ nat_toString (nat (gen_x s div y)),
              yielded := yielded s @ map parseInt_char (nat_toString (nat (gen_x s div y)))\<rparr>"
proof -
  consider "gen_x s = 0" | "0 < gen_x s" "gen_x s < y" | "y \<le> gen_x s"
    using assms(2) by linarith
  then show thesis
  proof cases
    case 1
    then show ?thesis using assms(3) exact by (simp add: loop_body_def)
  next
    case 2
    show ?thesis
    proof (cases "emittedDecimalPoint s")
      case True
      show ?thesis
      proof (cases "gen_x s * 10 < y")
        case lt: True
        with 2 True assms(3) show ?thesis
          by (intro scale_zero) (simp_all add: loop_body_def)
      next
        case ge: False
        with 2 True assms(3) show ?thesis
          by (intro scale) (simp_all add: loop_body_def)
      qed
    next
      case False
      show ?thesis
      proof (cases "gen_x s * 10 < y")
        case lt: True
        with 2 False assms(3) show ?thesis
          by (intro point_zero) (auto simp: loop_body_def)
      next
        case ge: False
        with 2 False assms(3) show ?thesis
          by (intro point) (auto simp: loop_body_def)
      qed
    qed
  next
    case 3
    with assms(1) have pos: "0 < gen_x s" by linarith
    have q: "JSBI_divide (gen_x s) y = Inr (gen_x s div y)"
      using assms(1,2) by (simp add: JSBI_divide_def trunc_div_nonneg)
    have r: "JSBI_remainder (gen_x s) y = Inr (gen_x s mod y)"
      using assms(1,2) by (simp add: JSBI_remainder_def trunc_rem_nonneg)
    have "0 \<le> gen_x s div y"
      using assms(1,2) by (simp add: pos_imp_zdiv_nonneg_iff)
    then have str: "JSBI_toString (gen_x s div y) = nat_toString (nat (gen_x s div y))"
      by (simp add: JSBI_toString_def)
    show ?thesis
      using 3 pos assms(3) q r str by (intro divide) (auto simp: loop_body_def Let_def)
  qed
qed

lemma loop_body_returns:
  assumes "0 < y" and "0 \<le> gen_x s"
  shows "\<exists>s1. loop_body y s = Inr s1"
proof -
  have "JSBI_divide (gen_x s) y = Inr (gen_x s div y)"
    using assms by (simp add: JSBI_divide_def trunc_div_nonneg)
  moreover have "JSBI_remainder (gen_x s) y = Inr (gen_x s mod y)"
    using assms by (simp add: JSBI_remainder_def trunc_rem_nonneg)
  ultimately show ?thesis
    by (simp add: loop_body_def Let_def)
qed

lemma loop_orderI_count:
  assumes "countSignificantDigits (gen_result s) < countSignificantDigits (gen_result s1)"
    and "int (countSignificantDigits (gen_result s)) < n"
  shows "(s1, s) \<in> loop_order y n"
  using assms by (simp add: loop_order_def)

lemma loop_orderI_scaled:
  assumes "countSignificantDigits (gen_result s) \<le> countSignificantDigits (gen_result s1)"
    and "int (countSignificantDigits (gen_result s)) < n"
    and "gen_done s1 = gen_done s"
    and "0 < gen_x s" and "gen_x s < y" and "gen_x s1 = gen_x s * 10"
  shows "(s1, s) \<in> loop_order y n"
proof (cases "countSignificantDigits (gen_result s) = countSignificantDigits (gen_result s1)")
  case True
  have "nat (y - gen_x s * 10) < nat (y - gen_x s)"
    using assms(4,5) by linarith
  with True assms(3,6) show ?thesis by (simp add: loop_order_def)
next
  case False
  with assms(1) have "countSignificantDigits (gen_result s) < countSignificantDigits (gen_result s1)"
    by simp
  then show ?thesis using assms(2) by (rule loop_orderI_count)
qed

lemma csd_point_prefix:
  "countSignificantDigits r
     \<le> countSignificantDigits ((if r = [] then ''0'' else r) @ ''.'')"
proof (cases "r = []")
  case True
  then have "countSignificantDigits r = 0"
    by (simp add: countSignificantDigits_def)
  then show ?thesis by simp
next
  case False
  then show ?thesis by (simp add: csd_point)
qed

lemma wf_loop_order: "wf (loop_order y n)"
  by (simp add: loop_order_def)

lemma loop_body_decreases:
  assumes y: "0 < y" and x: "0 \<le> gen_x s" and g: "loop_guard n s"
    and b: "loop_body y s = Inr s1"
  shows "(s1, s) \<in> loop_order y n" and "0 \<le> gen_x s1"
proof -
  from g have nd: "\<not> gen_done s" and c: "int (countSignificantDigits (gen_result s)) < n"
    by (simp_all add: loop_guard_eq)
  from y x b have "(s1, s) \<in> loop_order y n \<and> 0 \<le> gen_x s1"
  proof (cases rule: loop_body_cases)
    case exact
    with nd x show ?thesis by (simp add: loop_order_def)
  next
    case scale_zero
    have "(s1, s) \<in> loop_order y n"
      using c scale_zero by (intro loop_orderI_scaled) (simp_all add: csd_snoc_ge)
    with scale_zero show ?thesis by simp
  next
    case scale
    have "(s1, s) \<in> loop_order y n"
      using c scale by (intro loop_orderI_scaled) simp_all
    with scale show ?thesis by simp
  next
    case point_zero
    have "countSignificantDigits (gen_result s)
        \<le> countSignificantDigits ((if gen_result s = [] then ''0'' else gen_result s) @ ''.'')"
      by (rule csd_point_prefix)
    also have "\<dots> \<le> countSignificantDigits
        (((if gen_result s = [] then ''0'' else gen_result s) @ ''.'') @ ''0'')"
      by (rule csd_snoc_ge)
    finally have "countSignificantDigits (gen_result s) \<le> countSignificantDigits (gen_result s1)"
      using point_zero by simp
    then have "(s1, s) \<in> loop_order y n"
      using c point_zero by (intro loop_orderI_scaled) simp_all
    with point_zero show ?thesis by simp
  next
    case point
    have "countSignificantDigits (gen_result s) \<le> countSignificantDigits (gen_result s1)"
      using point csd_point_prefix [of "gen_result s"] by simp
    then have "(s1, s) \<in> loop_order y n"
      using c point by (intro loop_orderI_scaled) simp_all
    with point show ?thesis by simp
  next
    case divide
    have q: "0 < nat (gen_x s div y)"
      using divide(1) y by (simp add: pos_imp_zdiv_pos_iff)
    have "nat_toString (nat (gen_x s div y)) \<noteq> []"
      using nat_toString_leading [OF q] by auto
    then have "countSignificantDigits (gen_result s) < countSignificantDigits (gen_result s1)"
      using divide(2) csd_append_number [OF q, of "gen_result s"] by simp
    then have "(s1, s) \<in> loop_order y n"
      using c by (rule loop_orderI_count)
    moreover have "0 \<le> gen_x s mod y"
      using y by simp
    ultimately show ?thesis using divide(2) by simp
  qed
  then show "(s1, s) \<in> loop_order y n" and "0 \<le> gen_x s1"
    by simp_all
qed

lemma loop_returns:
  assumes y: "0 < y"
  shows "0 \<le> gen_x s \<Longrightarrow> \<exists>s'. nextDigitForDivision_loop y n s = Some (Inr s')"
proof (induction s rule: wf_induct_rule [OF wf_loop_order [of y n]])
  case (1 s)
  note less = 1
  show ?case
  proof (cases "loop_guard n s")
    case False
    then show ?thesis
      by (simp add: nextDigitForDivision_loop.simps [of y n s])
  next
    case True
    obtain s1 where s1: "loop_body y s = Inr s1"
      using loop_body_returns [OF y less(2)] by blast
    have "(s1, s) \<in> loop_order y n" and "0 \<le> gen_x s1"
      using loop_body_decreases [OF y less(2) True s1] by simp_all
    then obtain s' where "nextDigitForDivision_loop y n s1 = Some (Inr s')"
      using less(1) by blast
    then show ?thesis
      using True s1 by (simp add: nextDigitForDivision_loop.simps [of y n s])
  qed
qed

text \<open>An invariant of the loop body holds of the state the loop returns.\<close>

lemma loop_invariant:
  assumes ret: "nextDigitForDivision_loop y n s = Some (Inr s')"
    and init: "I s"
    and step: "\<And>s s1. I s \<Longrightarrow> loop_guard n s \<Longrightarrow> loop_body y s = Inr s1 \<Longrightarrow> I s1"
  shows "I s' \<and> \<not> loop_guard n s'"
proof -
  define P where "P = (\<lambda>(y0::int) (n0::int) s0 (r :: error + division_state). y0 = y \<longrightarrow> n0 = n \<longrightarrow> I s0 \<longrightarrow>
              (\<forall>t. r = Inr t \<longrightarrow> I t \<and> \<not> loop_guard n t))"
  have "P y n s (Inr s')"
    using ret
  proof (rule nextDigitForDivision_loop.raw_induct [rotated])
    fix loop y0 n0 s0 r
    assume IH: "\<And>a b c d. loop a b c = Some d \<Longrightarrow> P a b c d"
      and eq: "(if loop_guard n0 s0
                then case loop_body y0 s0 of Inl e \<Rightarrow> Some (Inl e) | Inr s' \<Rightarrow> loop y0 n0 s'
                else Some (Inr s0)) = Some r"
    show "P y0 n0 s0 r"
      unfolding P_def
    proof (intro impI allI)
      fix t
      assume y0: "y0 = y" and n0: "n0 = n" and I: "I s0" and r: "r = Inr t"
      show "I t \<and> \<not> loop_guard n t"
      proof (cases "loop_guard n s0")
        case False
        with eq n0 r have "t = s0" by simp
        with False I show ?thesis by simp
      next
        case True
        show ?thesis
        proof (cases "loop_body y s0")
          case (Inl e)
          with True eq y0 n0 r show ?thesis by simp
        next
          case (Inr s1)
          with True eq y0 n0 have "loop y n s1 = Some r" by simp
          moreover have "I s1" using I True Inr by (rule step)
          ultimately have "P y n s1 r" by (intro IH)
          then show ?thesis using \<open>I s1\<close> r by (simp add: P_def)
        qed
      qed
    qed
  qed
  with init show ?thesis by (simp add: P_def)
qed

section \<open>Properties of the decimal rendering\<close>

lemma nextDigitForDivision_returns:
  assumes "0 < y" and "0 \<le> x"
  shows "\<exists>ds. nextDigitForDivision x y n = Some (Inr ds)"
proof -
  obtain s' where "nextDigitForDivision_loop y n
      \<lparr>gen_result = [], emittedDecimalPoint = False, gen_done = False,
       gen_x = x, yielded = []\<rparr> = Some (Inr s')"
    using loop_returns [OF assms(1), of _ n] assms(2)
    by (metis division_state.select_convs(4))
  then show ?thesis by (simp add: nextDigitForDivision_def)
qed

text \<open>
  C10: for every Rational with a nonzero numerator, \<^verbatim>\<open>toDecimalPlaces(0)\<close> emits no digit: it
  returns the empty string when the value is not negative and the bare sign \<^verbatim>\<open>"-"\<close> when it
  is.
\<close>

theorem toDecimalPlaces_no_digits:
  "numerator this \<noteq> 0 \<Longrightarrow>
     toDecimalPlaces this (Finite 0) = Some (Inr (if isNegative this then ''-'' else []))"
proof -
  assume nz: "numerator this \<noteq> 0"
  have "\<not> loop_guard 0 s" for s
    by (simp add: loop_guard_eq)
  then have "nextDigitForDivision x y 0 = Some (Inr [])" for x y
    by (simp add: nextDigitForDivision_def nextDigitForDivision_loop.simps)
  then show ?thesis
    using nz
    by (simp add: toDecimalPlaces_def Number_isInteger_def number_less_zero_def integer_of_def)
qed

theorem toDecimalPlaces_no_digits_witness:
  "numerator \<lparr>numerator = 1, denominator = 3, isNegative = True\<rparr> \<noteq> 0
   \<and> toDecimalPlaces \<lparr>numerator = 1, denominator = 3, isNegative = True\<rparr> (Finite 0)
       = Some (Inr ''-'')"
  using toDecimalPlaces_no_digits [of "\<lparr>numerator = 1, denominator = 3, isNegative = True\<rparr>"]
  by simp

text \<open>
  C8: \<^verbatim>\<open>toDecimalPlaces(n)\<close> fails with a TypeError when \<open>n\<close> is not an integer and with a
  RangeError when \<open>n\<close> is a negative integer, whatever the Rational (so before any division);
  for a non-negative integer \<open>n\<close> and a Rational of the constructor it returns a string.
\<close>

theorem toDecimalPlaces_argument_check:
  "(\<not> Number_isInteger n \<longrightarrow> toDecimalPlaces this n = Some (Inl TypeError))
   \<and> (Number_isInteger n \<and> number_less_zero n \<longrightarrow>
        toDecimalPlaces this n = Some (Inl RangeError))
   \<and> (Number_isInteger n \<and> \<not> number_less_zero n \<and> Rational_new p q = Inr this \<longrightarrow>
        (\<exists>str. toDecimalPlaces this n = Some (Inr str)))"
proof (intro conjI impI)
  assume "\<not> Number_isInteger n"
  then show "toDecimalPlaces this n = Some (Inl TypeError)"
    by (simp add: toDecimalPlaces_def)
next
  assume "Number_isInteger n \<and> number_less_zero n"
  then show "toDecimalPlaces this n = Some (Inl RangeError)"
    by (simp add: toDecimalPlaces_def)
next
  assume a: "Number_isInteger n \<and> \<not> number_less_zero n \<and> Rational_new p q = Inr this"
  then have r: "Rational_new p q = Inr this" by simp
  obtain ds where "nextDigitForDivision (numerator this) (denominator this) (integer_of n)
      = Some (Inr ds)"
    using nextDigitForDivision_returns [OF Rational_new_props(3) [OF r] Rational_new_props(2) [OF r]]
    by blast
  then show "\<exists>str. toDecimalPlaces this n = Some (Inr str)"
    using a by (simp add: toDecimalPlaces_def)
qed

theorem toDecimalPlaces_argument_check_witness:
  "\<not> Number_isInteger (Finite (3 / 2))
   \<and> toDecimalPlaces \<lparr>numerator = 1, denominator = 2, isNegative = False\<rparr> (Finite (3 / 2))
       = Some (Inl TypeError)
   \<and> Number_isInteger (Finite (- 1)) \<and> number_less_zero (Finite (- 1))
   \<and> toDecimalPlaces \<lparr>numerator = 1, denominator = 2, isNegative = False\<rparr> (Finite (- 1))
       = Some (Inl RangeError)
   \<and> Number_isInteger (Finite 2) \<and> \<not> number_less_zero (Finite 2)
   \<and> Rational_new 2 4 = Inr \<lparr>numerator = 1, denominator = 2, isNegative = False\<rparr>
   \<and> (\<exists>str. toDecimalPlaces \<lparr>numerator = 1, denominator = 2, isNegative = False\<rparr> (Finite 2)
          = Some (Inr str))"
proof -
  have "\<lfloor>3 / 2 :: rat\<rfloor> = 1"
    by (rule floor_unique) simp_all
  then have a: "\<not> Number_isInteger (Finite (3 / 2))"
    by (simp add: Number_isInteger_def)
  have b: "Number_isInteger (Finite (- 1)) \<and> number_less_zero (Finite (- 1))"
    by (simp add: Number_isInteger_def number_less_zero_def)
  have c: "Number_isInteger (Finite 2) \<and> \<not> number_less_zero (Finite 2)"
    by (simp add: Number_isInteger_def number_less_zero_def)
  have d: "Rational_new 2 4 = Inr \<lparr>numerator = 1, denominator = 2, isNegative = False\<rparr>"
    by code_simp
  show ?thesis
    using a b c d
      toDecimalPlaces_argument_check
        [of "Finite (3 / 2)" "\<lparr>numerator = 1, denominator = 2, isNegative = False\<rparr>"]
      toDecimalPlaces_argument_check
        [of "Finite (- 1)" "\<lparr>numerator = 1, denominator = 2, isNegative = False\<rparr>"]
      toDecimalPlaces_argument_check
        [of "Finite 2" "\<lparr>numerator = 1, denominator = 2, isNegative = False\<rparr>" 2 4]
    by simp
qed


section \<open>Long division\<close>

lemma remainder_step:
  "X * 10 ^ Suc k mod Y = 10 * (X * 10 ^ k mod Y) mod (Y::int)"
proof -
  have "X * 10 ^ Suc k = 10 * (X * 10 ^ k)" by simp
  then show ?thesis by (simp only: mod_mult_right_eq)
qed

lemma quotient_step:
  assumes "0 < (Y::int)"
  shows "10 * N div Y = 10 * (N div Y) + 10 * (N mod Y) div Y"
proof -
  have "10 * (N div Y) * Y + 10 * (N mod Y) = 10 * (N div Y * Y + N mod Y)"
    by (simp only: distrib_left mult.assoc)
  also have "\<dots> = 10 * N"
    by (simp only: div_mult_mod_eq)
  finally have "10 * N div Y = (10 * (N div Y) * Y + 10 * (N mod Y)) div Y"
    by simp
  also have "\<dots> = 10 * (N div Y) + 10 * (N mod Y) div Y"
    using assms by (simp only: div_mult_self3)
  finally show ?thesis .
qed

lemma div_less_ten:
  assumes "0 < (Y::int)" and "a < 10 * Y"
  shows "a div Y < 10"
proof (rule ccontr)
  assume "\<not> a div Y < 10"
  then have "10 \<le> a div Y" by simp
  then have "10 * Y \<le> a div Y * Y"
    using assms(1) by (intro mult_right_mono) simp_all
  moreover have "a div Y * Y + a mod Y = a"
    by (rule div_mult_mod_eq)
  moreover have "0 \<le> a mod Y"
    using assms(1) by simp
  ultimately show False
    using assms(2) by linarith
qed

lemma next_digit_bounds:
  assumes "0 < (Y::int)"
  shows "0 \<le> 10 * (N mod Y) div Y" and "10 * (N mod Y) div Y < 10"
proof -
  have "0 \<le> N mod Y" and "N mod Y < Y"
    using assms by simp_all
  then show "0 \<le> 10 * (N mod Y) div Y"
    using assms by (simp add: pos_imp_zdiv_nonneg_iff)
  have "10 * (N mod Y) < 10 * Y"
    using \<open>N mod Y < Y\<close> by simp
  with assms show "10 * (N mod Y) div Y < 10"
    by (rule div_less_ten)
qed

lemma frac_digit_Suc:
  assumes "0 < Y"
  shows "int (frac_digit X Y (Suc k)) = 10 * (X * 10 ^ k mod Y) div Y"
proof -
  let ?N = "X * 10 ^ k"
  let ?d = "10 * (?N mod Y) div Y"
  have d: "0 \<le> ?d" "?d < 10"
    using next_digit_bounds [OF assms] by simp_all
  have "X * 10 ^ Suc k div Y = 10 * ?N div Y"
    by (simp add: mult.assoc mult.left_commute)
  also have "\<dots> = 10 * (?N div Y) + ?d"
    by (rule quotient_step [OF assms])
  finally have "X * 10 ^ Suc k div Y mod 10 = (10 * (?N div Y) + ?d) mod 10"
    by simp
  also have "\<dots> = ?d mod 10"
    by (simp add: mod_mult_self4)
  also have "\<dots> = ?d"
    using d by simp
  finally show ?thesis
    using d by (simp add: frac_digit_def)
qed

lemma decimal_expansion_Suc:
  "decimal_expansion X Y (Suc k) = decimal_expansion X Y k @ [digit_char (frac_digit X Y (Suc k))]"
  by (simp add: decimal_expansion_def)

lemma decimal_expansion_0: "decimal_expansion X Y 0 = nat_toString (nat (X div Y)) @ ''.''"
  by (simp add: decimal_expansion_def)

lemma decimal_expansion_prefix:
  assumes "k \<le> m"
  shows "prefix (decimal_expansion X Y k) (decimal_expansion X Y m)"
proof -
  from assms obtain d where m: "m = k + d"
    using le_Suc_ex by blast
  have "[1..<Suc k + d] = [1..<Suc k] @ [Suc k..<Suc k + d]"
    by (rule upt_add_eq_append) simp
  then have "decimal_expansion X Y m =
      decimal_expansion X Y k @ map (\<lambda>i. digit_char (frac_digit X Y i)) [Suc k..<Suc k + d]"
    by (simp add: decimal_expansion_def m)
  then show ?thesis by (simp add: prefix_def)
qed

lemma length_decimal_expansion: "k \<le> length (decimal_expansion X Y k)"
  by (simp add: decimal_expansion_def)

lemma nat_toString_prefix_expansion:
  "prefix (nat_toString (nat (X div Y))) (decimal_expansion X Y m)"
  by (simp add: decimal_expansion_def)


section \<open>Invariants of the division loop\<close>

lemma digit_char_0: "digit_char 0 = CHR ''0''"
  by (simp add: digit_char_def)

lemma Digit_toString_0: "Digit_toString (Val 0) = ''0''"
  using Digit_toString_digit [of 0] by (simp add: digit_char_0)

text \<open>The string the caller assembles from the yielded values is the generator's own.\<close>

lemma rendered_step:
  assumes "0 < y" and "0 \<le> gen_x s" and "loop_body y s = Inr s1"
    and r: "render (yielded s) [] = gen_result s"
  shows "render (yielded s1) [] = gen_result s1"
  using assms(1-3)
proof (cases rule: loop_body_cases)
  case exact
  with r show ?thesis by simp
next
  case scale_zero
  with r show ?thesis by (simp add: render_append Digit_toString_0)
next
  case scale
  with r show ?thesis by simp
next
  case point_zero
  with r show ?thesis by (simp add: render_append Digit_toString_0)
next
  case point
  with r show ?thesis by (simp add: render_append)
next
  case divide
  with r show ?thesis by (simp add: render_append render_digits)
qed

text \<open>The flag \<^verbatim>\<open>done\<close> is set only on a zero remainder.\<close>

lemma done_step:
  assumes "0 < y" and "0 \<le> gen_x s" and "loop_body y s = Inr s1"
    and "\<not> gen_done s"
  shows "gen_done s1 \<longrightarrow> gen_x s1 = 0"
  using assms(1-3)
proof (cases rule: loop_body_cases)
  case exact
  then show ?thesis by simp
qed (use assms(4) in simp_all)

text \<open>After the first turn every turn adds at most one significant digit.\<close>

lemma budget_step:
  assumes y: "0 < y" and x: "0 \<le> gen_x s" and b: "loop_body y s = Inr s1"
    and g: "loop_guard n s" and inv: "budget_state X y n s"
  shows "budget_state X y n s1"
proof -
  let ?D = "int (countSignificantDigits (nat_toString (nat (X div y))))"
  from g have c: "int (countSignificantDigits (gen_result s)) < n"
    by (simp add: loop_guard_eq)
  have one: "int (countSignificantDigits (gen_result s @ [ch])) \<le> max n ?D" for ch
    using c csd_snoc_le [of "gen_result s" ch] by linarith
  have pt: "int (countSignificantDigits ((gen_result s @ ''.'') @ [ch])) \<le> max n ?D" for ch
    using c csd_snoc_le [of "gen_result s @ ''.''" ch] csd_point [of "gen_result s"] by linarith
  have z1: "countSignificantDigits ''0.'' = 0" and z2: "countSignificantDigits ''0.0'' = 0"
    by (simp_all add: countSignificantDigits_def is_nonzero_digit_def)
  from y x b show ?thesis
  proof (cases rule: loop_body_cases)
    case exact
    with inv show ?thesis by (simp add: budget_state_def)
  next
    case scale_zero
    with inv one [of "CHR ''0''"] show ?thesis by (simp add: budget_state_def)
  next
    case scale
    with inv show ?thesis by (simp add: budget_state_def)
  next
    case point_zero
    show ?thesis
    proof (cases "gen_result s = []")
      case True
      with point_zero z2 show ?thesis by (simp add: budget_state_def)
    next
      case False
      with point_zero pt [of "CHR ''0''"] show ?thesis by (simp add: budget_state_def)
    qed
  next
    case point
    show ?thesis
    proof (cases "gen_result s = []")
      case True
      with point z1 show ?thesis by (simp add: budget_state_def)
    next
      case False
      with point c csd_point [of "gen_result s"] show ?thesis by (simp add: budget_state_def)
    qed
  next
    case divide
    have lt: "gen_x s mod y < 10 * y"
      using y pos_mod_bound [of y "gen_x s"] by linarith
    have ne: "nat_toString (nat (gen_x s div y)) \<noteq> []"
      using nat_toString.simps [of "nat (gen_x s div y)"] by auto
    show ?thesis
    proof (cases "gen_result s = []")
      case True
      with inv have "gen_x s = X" by (simp add: budget_state_def)
      with True divide lt ne show ?thesis by (simp add: budget_state_def)
    next
      case False
      with inv have "gen_x s < 10 * y" by (simp add: budget_state_def)
      with y have "gen_x s div y < 10" by (rule div_less_ten)
      moreover have "0 \<le> gen_x s div y"
        using y x by (simp add: pos_imp_zdiv_nonneg_iff)
      ultimately have "nat (gen_x s div y) < 10" by linarith
      then have "nat_toString (nat (gen_x s div y)) = [digit_char (nat (gen_x s div y))]"
        by (rule nat_toString_small)
      with False divide lt one [of "digit_char (nat (gen_x s div y))"] show ?thesis
        by (simp add: budget_state_def)
    qed
  qed
qed


text \<open>
  The digits emitted so far are the integer part and the first \<open>k\<close> digits after the point,
  and \<^verbatim>\<open>x\<close> is the remainder they leave (or ten times it, before the next digit is taken).
\<close>

lemma expansion_before_point:
  assumes "0 < Y" and "0 \<le> gen_x s" and "gen_x s < Y" and "\<not> emittedDecimalPoint s"
    and "expansion_state X Y s"
  shows "(if gen_result s = [] then ''0'' else gen_result s) @ ''.'' = decimal_expansion X Y 0"
    and "gen_x s = X * 10 ^ 0 mod Y"
proof -
  have ne: "nat_toString m \<noteq> []" for m
    using nat_toString.simps [of m] by auto
  consider "gen_result s = []" "gen_x s = X"
    | "gen_result s = nat_toString (nat (X div Y))" "gen_x s = X mod Y"
    using assms(4,5) by (auto simp: expansion_state_def)
  then have "(if gen_result s = [] then ''0'' else gen_result s) = nat_toString (nat (X div Y))
      \<and> gen_x s = X mod Y"
  proof cases
    case 1
    with assms(1-3) have "X div Y = 0" "X mod Y = X"
      by simp_all
    with 1 show ?thesis
      by (simp add: nat_toString_small digit_char_0)
  next
    case 2
    with ne show ?thesis by simp
  qed
  then show "(if gen_result s = [] then ''0'' else gen_result s) @ ''.'' = decimal_expansion X Y 0"
    and "gen_x s = X * 10 ^ 0 mod Y"
    by (simp_all add: decimal_expansion_0)
qed

lemma expansion_zero_digit:
  assumes "0 < Y" and "10 * (X * 10 ^ k mod Y) < Y"
  shows "decimal_expansion X Y k @ ''0'' = decimal_expansion X Y (Suc k)"
    and "10 * (X * 10 ^ k mod Y) = X * 10 ^ Suc k mod Y"
proof -
  have nn: "0 \<le> 10 * (X * 10 ^ k mod Y)"
    using assms(1) by simp
  then have "10 * (X * 10 ^ k mod Y) div Y = 0"
    using assms(2) by (simp add: div_pos_pos_trivial)
  then have "frac_digit X Y (Suc k) = 0"
    using frac_digit_Suc [OF assms(1), of X k] by simp
  then show "decimal_expansion X Y k @ ''0'' = decimal_expansion X Y (Suc k)"
    by (simp add: decimal_expansion_Suc digit_char_0)
  have "10 * (X * 10 ^ k mod Y) mod Y = 10 * (X * 10 ^ k mod Y)"
    using nn assms(2) by (simp add: mod_pos_pos_trivial)
  then show "10 * (X * 10 ^ k mod Y) = X * 10 ^ Suc k mod Y"
    by (simp only: remainder_step)
qed

lemma expansion_next_digit:
  assumes "0 < Y"
  shows "decimal_expansion X Y k @ nat_toString (nat (10 * (X * 10 ^ k mod Y) div Y))
           = decimal_expansion X Y (Suc k)"
proof -
  let ?d = "10 * (X * 10 ^ k mod Y) div Y"
  have d: "0 \<le> ?d" "?d < 10"
    using next_digit_bounds [OF assms] by simp_all
  then have "nat ?d < 10" by linarith
  then have "nat_toString (nat ?d) = [digit_char (nat ?d)]"
    by (rule nat_toString_small)
  moreover have "nat ?d = frac_digit X Y (Suc k)"
    using frac_digit_Suc [OF assms, of X k] by simp
  ultimately show ?thesis
    by (simp add: decimal_expansion_Suc)
qed

lemma expansion_step:
  assumes y: "0 < y" and x: "0 \<le> gen_x s" and b: "loop_body y s = Inr s1"
    and inv: "expansion_state X y s"
  shows "expansion_state X y s1"
  using y x b
proof (cases rule: loop_body_cases)
  case exact
  with inv show ?thesis by (simp add: expansion_state_def)
next
  case scale_zero
  with inv obtain k where k: "gen_result s = decimal_expansion X y k"
    "gen_x s = X * 10 ^ k mod y"
    by (auto simp: expansion_state_def)
  have lt: "10 * (X * 10 ^ k mod y) < y"
    using scale_zero(4) k(2) by simp
  have "gen_result s1 = decimal_expansion X y (Suc k)"
    using scale_zero(5) k(1) expansion_zero_digit(1) [OF y lt] by simp
  moreover have "gen_x s1 = X * 10 ^ Suc k mod y"
    using scale_zero(5) k(2) expansion_zero_digit(2) [OF y lt] by simp
  moreover have "emittedDecimalPoint s1"
    using scale_zero by simp
  ultimately show ?thesis
    unfolding expansion_state_def by blast
next
  case scale
  with inv obtain k where k: "gen_result s = decimal_expansion X y k"
    "gen_x s = X * 10 ^ k mod y"
    by (auto simp: expansion_state_def)
  have "gen_result s1 = decimal_expansion X y k"
    using scale(5) k(1) by simp
  moreover have "gen_x s1 = 10 * (X * 10 ^ k mod y) \<and> y \<le> gen_x s1"
    using scale(4,5) k(2) by simp
  moreover have "emittedDecimalPoint s1"
    using scale by simp
  ultimately show ?thesis
    unfolding expansion_state_def by blast
next
  case point_zero
  note e = expansion_before_point [OF y x point_zero(2,3) inv]
  have lt: "10 * (X * 10 ^ 0 mod y) < y"
    using point_zero(4) e(2) by simp
  have "gen_result s1 = decimal_expansion X y 0 @ ''0''"
    using point_zero(5) e(1) by simp
  then have "gen_result s1 = decimal_expansion X y (Suc 0)"
    using expansion_zero_digit(1) [OF y lt] by simp
  moreover have "gen_x s1 = X * 10 ^ Suc 0 mod y"
    using point_zero(5) e(2) expansion_zero_digit(2) [OF y lt] by simp
  moreover have "emittedDecimalPoint s1"
    using point_zero by simp
  ultimately show ?thesis
    unfolding expansion_state_def by blast
next
  case point
  note e = expansion_before_point [OF y x point(2,3) inv]
  have "gen_result s1 = decimal_expansion X y 0"
    using point(5) e(1) by simp
  moreover have "gen_x s1 = 10 * (X * 10 ^ 0 mod y) \<and> y \<le> gen_x s1"
    using point(4,5) e(2) by simp
  moreover have "emittedDecimalPoint s1"
    using point by simp
  ultimately show ?thesis
    unfolding expansion_state_def by blast
next
  case divide
  from inv consider
      (first) "gen_result s = []" "\<not> emittedDecimalPoint s" "gen_x s = X"
    | (whole) "gen_x s = X mod y"
    | (rest) k where "gen_x s = X * 10 ^ k mod y"
    | (tenfold) k where "emittedDecimalPoint s" "gen_result s = decimal_expansion X y k"
        "gen_x s = 10 * (X * 10 ^ k mod y)"
    unfolding expansion_state_def by blast
  then show ?thesis
  proof cases
    case first
    with divide show ?thesis by (simp add: expansion_state_def)
  next
    case whole
    then show ?thesis
      using divide(1) pos_mod_bound [OF y, of X] by simp
  next
    case (rest k)
    then show ?thesis
      using divide(1) pos_mod_bound [OF y, of "X * 10 ^ k"] by simp
  next
    case (tenfold k)
    have "gen_result s1 = decimal_expansion X y (Suc k)"
      using divide(2) tenfold(2,3) expansion_next_digit [OF y, of X k] by simp
    moreover have "gen_x s1 = X * 10 ^ Suc k mod y"
      using divide(2) tenfold(3) by (simp only: remainder_step) simp
    moreover have "emittedDecimalPoint s1"
      using divide(2) tenfold(1) by simp
    ultimately show ?thesis
      unfolding expansion_state_def by blast
  qed
qed

lemma expansion_state_prefix:
  assumes "expansion_state X Y s"
  shows "prefix (gen_result s) (decimal_expansion X Y (length (gen_result s)))"
proof -
  consider "gen_result s = []" | "gen_result s = nat_toString (nat (X div Y))"
    | k where "gen_result s = decimal_expansion X Y k"
    using assms by (auto simp: expansion_state_def)
  then show ?thesis
  proof cases
    case 1
    then show ?thesis by simp
  next
    case 2
    then show ?thesis by (simp add: nat_toString_prefix_expansion)
  next
    case 3
    then show ?thesis
      using decimal_expansion_prefix [OF length_decimal_expansion [of k X Y]] by simp
  qed
qed

section \<open>What the rendering returns\<close>

lemma division_result:
  assumes Y: "0 < Y" and X: "0 < X"
  shows "\<exists>s'. nextDigitForDivision_loop Y n
            \<lparr>gen_result = [], emittedDecimalPoint = False, gen_done = False,
             gen_x = X, yielded = []\<rparr> = Some (Inr s')
          \<and> render (yielded s') [] = gen_result s'
          \<and> budget_state X Y n s'
          \<and> expansion_state X Y s'
          \<and> (int (countSignificantDigits (gen_result s')) < n \<longrightarrow> gen_x s' = 0)"
proof -
  let ?init = "\<lparr>gen_result = [], emittedDecimalPoint = False, gen_done = False,
             gen_x = X, yielded = []\<rparr>"
  let ?I = "\<lambda>s. 0 \<le> gen_x s \<and> render (yielded s) [] = gen_result s
             \<and> budget_state X Y n s \<and> expansion_state X Y s
             \<and> (gen_done s \<longrightarrow> gen_x s = 0)"
  have x0: "0 \<le> gen_x ?init"
    using X by simp
  obtain s' where ret: "nextDigitForDivision_loop Y n ?init = Some (Inr s')"
    using loop_returns [OF Y x0] by blast
  have init: "?I ?init"
    using X by (simp add: budget_state_def expansion_state_def)
  have step: "?I s1" if "?I s" and "loop_guard n s" and "loop_body Y s = Inr s1" for s s1
  proof -
    from that(1) have x: "0 \<le> gen_x s" by simp
    from that(2) have nd: "\<not> gen_done s" by (simp add: loop_guard_eq)
    have "0 \<le> gen_x s1"
      using loop_body_decreases(2) [OF Y x that(2,3)] .
    moreover have "render (yielded s1) [] = gen_result s1"
      using that(1) by (intro rendered_step [OF Y x that(3)]) simp
    moreover have "budget_state X Y n s1"
      using that(1) by (intro budget_step [OF Y x that(3,2)]) simp
    moreover have "expansion_state X Y s1"
      using that(1) by (intro expansion_step [OF Y x that(3)]) simp
    moreover have "gen_done s1 \<longrightarrow> gen_x s1 = 0"
      using done_step [OF Y x that(3) nd] .
    ultimately show ?thesis by simp
  qed
  have fin: "?I s' \<and> \<not> loop_guard n s'"
    using ret init step by (rule loop_invariant [where I = ?I])
  then have "int (countSignificantDigits (gen_result s')) < n \<longrightarrow> gen_x s' = 0"
    by (auto simp: loop_guard_eq)
  with ret fin show ?thesis
    by (intro exI [of _ s']) simp
qed

lemma csd_sign: "countSignificantDigits (''-'' @ body) = countSignificantDigits body"
  by (simp add: countSignificantDigits_def is_nonzero_digit_def)

lemma integer_of_nonneg:
  assumes "Number_isInteger n" and "\<not> number_less_zero n"
  shows "0 \<le> integer_of n"
  using assms
  by (cases n) (simp_all add: Number_isInteger_def number_less_zero_def integer_of_def)

lemma toDecimalPlaces_digits:
  assumes r: "Rational_new p q = Inr r" and nz: "numerator r \<noteq> 0"
    and n: "Number_isInteger n" "\<not> number_less_zero n"
  shows "\<exists>body.
      toDecimalPlaces r n = Some (Inr ((if isNegative r then ''-'' else []) @ body))
      \<and> prefix body (decimal_expansion (numerator r) (denominator r) (length body))
      \<and> int (countSignificantDigits body)
           \<le> max (integer_of n)
               (int (countSignificantDigits
                      (nat_toString (nat (numerator r div denominator r)))))
      \<and> (integer_of n \<le> int (countSignificantDigits body)
           \<or> (numerator r mod denominator r = 0
                \<and> body = nat_toString (nat (numerator r div denominator r)))
           \<or> (\<exists>k. body = decimal_expansion (numerator r) (denominator r) k
                    \<and> numerator r * 10 ^ k mod denominator r = 0))"
proof -
  let ?X = "numerator r" and ?Y = "denominator r" and ?n = "integer_of n"
  have Y: "0 < ?Y" and X: "0 < ?X"
    using Rational_new_props(2,3) [OF r] nz by simp_all
  obtain s' where all: "nextDigitForDivision_loop ?Y ?n
            \<lparr>gen_result = [], emittedDecimalPoint = False, gen_done = False,
             gen_x = ?X, yielded = []\<rparr> = Some (Inr s')
          \<and> render (yielded s') [] = gen_result s'
          \<and> budget_state ?X ?Y ?n s'
          \<and> expansion_state ?X ?Y s'
          \<and> (int (countSignificantDigits (gen_result s')) < ?n \<longrightarrow> gen_x s' = 0)"
    using division_result [OF Y X, of ?n] ..
  from all have ret: "nextDigitForDivision_loop ?Y ?n
            \<lparr>gen_result = [], emittedDecimalPoint = False, gen_done = False,
             gen_x = ?X, yielded = []\<rparr> = Some (Inr s')"
    by (rule conjunct1)
  from all have ren: "render (yielded s') [] = gen_result s'"
    and bud: "budget_state ?X ?Y ?n s'"
    and ex: "expansion_state ?X ?Y s'"
    and fin: "int (countSignificantDigits (gen_result s')) < ?n \<longrightarrow> gen_x s' = 0"
    by simp_all
  let ?body = "gen_result s'"
  have out: "toDecimalPlaces r n = Some (Inr ((if isNegative r then ''-'' else []) @ ?body))"
    using ret ren nz n by (simp add: toDecimalPlaces_def nextDigitForDivision_def)
  have pre: "prefix ?body (decimal_expansion ?X ?Y (length ?body))"
    using ex by (rule expansion_state_prefix)
  have n0: "0 \<le> ?n"
    using n by (rule integer_of_nonneg)
  have cnt: "int (countSignificantDigits ?body)
      \<le> max ?n (int (countSignificantDigits (nat_toString (nat (?X div ?Y)))))"
  proof (cases "?body = []")
    case True
    then have "countSignificantDigits ?body = 0"
      by (simp add: countSignificantDigits_def)
    with n0 show ?thesis by simp
  next
    case False
    with bud show ?thesis by (simp add: budget_state_def)
  qed
  have stop: "?n \<le> int (countSignificantDigits ?body)
      \<or> (?X mod ?Y = 0 \<and> ?body = nat_toString (nat (?X div ?Y)))
      \<or> (\<exists>k. ?body = decimal_expansion ?X ?Y k \<and> ?X * 10 ^ k mod ?Y = 0)"
  proof (cases "?n \<le> int (countSignificantDigits ?body)")
    case True
    then show ?thesis by simp
  next
    case False
    with fin have x0: "gen_x s' = 0" by simp
    from ex show ?thesis
      unfolding expansion_state_def
    proof (elim disjE conjE exE)
      assume "gen_x s' = ?X"
      with x0 X show ?thesis by simp
    next
      assume "?body = nat_toString (nat (?X div ?Y))" "gen_x s' = ?X mod ?Y"
      with x0 show ?thesis by simp
    next
      fix k
      assume "?body = decimal_expansion ?X ?Y k" "gen_x s' = ?X * 10 ^ k mod ?Y"
      with x0 have "?body = decimal_expansion ?X ?Y k \<and> ?X * 10 ^ k mod ?Y = 0"
        by simp
      then have "\<exists>k. ?body = decimal_expansion ?X ?Y k \<and> ?X * 10 ^ k mod ?Y = 0" ..
      then show ?thesis by simp
    next
      assume "?Y \<le> gen_x s'"
      with x0 Y show ?thesis by simp
    qed
  qed
  from out pre cnt stop show ?thesis
    by (intro exI [of _ ?body] conjI)
qed


lemma toDecimalPlaces_zero:
  assumes "numerator r = 0" and "Number_isInteger n" and "\<not> number_less_zero n"
  shows "toDecimalPlaces r n = Some (Inr ''0'')"
  using assms by (simp add: toDecimalPlaces_def)


text \<open>
  C4: for every Rational and every non-negative integer \<open>n\<close>, the string returned by
  \<^verbatim>\<open>toDecimalPlaces(n)\<close> has at most \<open>n\<close> significant digits. The budget is tested between the
  turns of the division, and the first turn emits the whole integer part: \<open>123/1\<close> rendered
  with \<open>n = 2\<close> is \<^verbatim>\<open>"123"\<close>, three significant digits.
\<close>

theorem digit_budget_exceeded:
  "Rational_new 123 1 = Inr \<lparr>numerator = 123, denominator = 1, isNegative = False\<rparr>
   \<and> toDecimalPlaces \<lparr>numerator = 123, denominator = 1, isNegative = False\<rparr> (Finite 2)
       = Some (Inr ''123'')
   \<and> \<not> countSignificantDigits ''123'' \<le> 2"
proof -
  have "Rational_new 123 1 = Inr \<lparr>numerator = 123, denominator = 1, isNegative = False\<rparr>"
    by (simp add: Rational_new_eq)
  moreover have "toDecimalPlaces \<lparr>numerator = 123, denominator = 1, isNegative = False\<rparr>
      (Finite 2) = Some (Inr ''123'')"
    by code_simp
  moreover have "\<not> countSignificantDigits ''123'' \<le> 2"
    by code_simp
  ultimately show ?thesis by simp
qed

text \<open>
  C4, amended: the string has at most \<open>max n d\<close> significant digits, where \<open>d\<close> is the number
  of digits of the integer part of the magnitude (none for an integer part of zero); so at
  most \<open>n\<close> whenever the integer part has at most \<open>n\<close> digits.
\<close>

theorem toDecimalPlaces_digit_budget:
  assumes "Rational_new p q = Inr r" and "Number_isInteger n" and "\<not> number_less_zero n"
  shows "\<exists>str. toDecimalPlaces r n = Some (Inr str)
           \<and> int (countSignificantDigits str)
                \<le> max (integer_of n)
                    (int (countSignificantDigits
                           (nat_toString (nat (numerator r div denominator r)))))"
proof (cases "numerator r = 0")
  case True
  have "countSignificantDigits ''0'' = 0"
    by (simp add: countSignificantDigits_def is_nonzero_digit_def)
  moreover have "0 \<le> integer_of n"
    using assms(2,3) by (rule integer_of_nonneg)
  ultimately show ?thesis
    using toDecimalPlaces_zero [OF True assms(2,3)] by simp
next
  case False
  obtain body where b: "toDecimalPlaces r n = Some (Inr ((if isNegative r then ''-'' else []) @ body))"
    and c: "int (countSignificantDigits body)
           \<le> max (integer_of n)
               (int (countSignificantDigits
                      (nat_toString (nat (numerator r div denominator r)))))"
    using toDecimalPlaces_digits [OF assms(1) False assms(2,3)] by auto
  have "countSignificantDigits ((if isNegative r then ''-'' else []) @ body)
      = countSignificantDigits body"
    using csd_sign [of body] by simp
  with b c show ?thesis by simp
qed

theorem toDecimalPlaces_digit_budget_witness:
  "Rational_new 5 3 = Inr \<lparr>numerator = 5, denominator = 3, isNegative = False\<rparr>
   \<and> Number_isInteger (Finite 2) \<and> \<not> number_less_zero (Finite 2)
   \<and> (\<exists>str. toDecimalPlaces \<lparr>numerator = 5, denominator = 3, isNegative = False\<rparr> (Finite 2)
            = Some (Inr str)
          \<and> int (countSignificantDigits str)
               \<le> max (integer_of (Finite 2))
                   (int (countSignificantDigits
                          (nat_toString
                             (nat (numerator \<lparr>numerator = 5, denominator = 3, isNegative = False\<rparr>
                                   div denominator
                                     \<lparr>numerator = 5, denominator = 3, isNegative = False\<rparr>))))))"
proof -
  have a: "Rational_new 5 3 = Inr \<lparr>numerator = 5, denominator = 3, isNegative = False\<rparr>"
    by code_simp
  have b: "Number_isInteger (Finite 2)"
    by (simp add: Number_isInteger_def)
  have c: "\<not> number_less_zero (Finite 2)"
    by (simp add: number_less_zero_def)
  from a b c toDecimalPlaces_digit_budget [OF a b c] show ?thesis
    by (intro conjI)
qed




section \<open>Where the operators and the comparator are exact\<close>

text \<open>The value of a constructed Rational is the quotient of the arguments.\<close>

lemma value_of_Rational_new:
  assumes "Rational_new p q = Inr r"
  shows "value_of r = of_int p / of_int q"
proof -
  have q: "q \<noteq> 0"
    using assms by (rule Rational_new_props(1))
  have r: "r = \<lparr>numerator = \<bar>p\<bar> div gcd p q, denominator = \<bar>q\<bar> div gcd p q,
        isNegative = ((p < 0) \<noteq> (q < 0))\<rparr>"
    using assms Rational_new_eq [OF q, of p] by simp
  have g: "gcd p q \<noteq> 0"
    using q by simp
  have n: "(of_int (\<bar>p\<bar> div gcd p q) :: rat) = of_int \<bar>p\<bar> / of_int (gcd p q)"
    by (rule of_int_div) simp
  have d: "(of_int (\<bar>q\<bar> div gcd p q) :: rat) = of_int \<bar>q\<bar> / of_int (gcd p q)"
    by (rule of_int_div) simp
  have "(of_int (\<bar>p\<bar> div gcd p q) :: rat) / of_int (\<bar>q\<bar> div gcd p q)
      = of_int \<bar>p\<bar> / of_int \<bar>q\<bar>"
    using g by (simp add: n d)
  then have "value_of r = (if (p < 0) \<noteq> (q < 0) then - 1 else 1) * (of_int \<bar>p\<bar> / of_int \<bar>q\<bar>)"
    by (simp add: value_of_def r)
  also have "\<dots> = of_int p / of_int q"
    using q by (cases "p < 0"; cases "q < 0") simp_all
  finally show ?thesis .
qed

text \<open>\<^verbatim>\<open>cmp\<close> orders Rationals with positive denominators by their values.\<close>

lemma cmp_value_of:
  assumes "0 < denominator x" and "0 < denominator y"
  shows "cmp x y = (if value_of x < value_of y then - 1 else if value_of y < value_of x then 1 else 0)"
proof -
  let ?a = "(if isNegative x then minusOne else 1) * numerator x * denominator y"
  let ?b = "(if isNegative y then minusOne else 1) * numerator y * denominator x"
  have vx: "value_of x = of_int ((if isNegative x then minusOne else 1) * numerator x)
      / of_int (denominator x)"
    by (simp add: value_of_def minusOne_def)
  have vy: "value_of y = of_int ((if isNegative y then minusOne else 1) * numerator y)
      / of_int (denominator y)"
    by (simp add: value_of_def minusOne_def)
  have dx: "(0::rat) < of_int (denominator x)" and dy: "(0::rat) < of_int (denominator y)"
    using assms by simp_all
  have lt: "value_of x < value_of y \<longleftrightarrow> ?a < ?b"
  proof -
    have "value_of x < value_of y \<longleftrightarrow>
        (of_int ?a :: rat) < of_int ?b"
      unfolding vx vy using dx dy by (simp add: divide_less_eq less_divide_eq mult.commute)
    then show ?thesis by (simp only: of_int_less_iff)
  qed
  have gt: "value_of y < value_of x \<longleftrightarrow> ?b < ?a"
  proof -
    have "value_of y < value_of x \<longleftrightarrow>
        (of_int ?b :: rat) < of_int ?a"
      unfolding vx vy using dx dy by (simp add: divide_less_eq less_divide_eq mult.commute)
    then show ?thesis by (simp only: of_int_less_iff)
  qed
  show ?thesis
    unfolding lt gt by (simp add: cmp_def Let_def)
qed


lemma Rational_new_value:
  assumes "q \<noteq> 0"
  obtains r where "Rational_new p q = Inr r" and "value_of r = of_int p / of_int q"
    and "0 \<le> numerator r" and "0 < denominator r"
    and "isNegative r = ((p < 0) \<noteq> (q < 0))"
proof -
  obtain r where r: "Rational_new p q = Inr r"
    using assms Rational_new_Inr_iff [of p q] by auto
  show thesis
    using r value_of_Rational_new [OF r] Rational_new_props(2,3,5) [OF r] by (rule that)
qed

lemma negate_value:
  assumes "0 \<le> numerator r" and "0 < denominator r"
  obtains r' where "negate r = Inr r'" and "value_of r' = - value_of r"
    and "0 \<le> numerator r'" and "0 < denominator r'"
    and "isNegative r \<Longrightarrow> \<not> isNegative r'"
proof (cases "isNegative r")
  case True
  from assms(2) have d: "denominator r \<noteq> 0" by simp
  obtain r' where r': "Rational_new (numerator r) (denominator r) = Inr r'"
    "value_of r' = of_int (numerator r) / of_int (denominator r)"
    "0 \<le> numerator r'" "0 < denominator r'"
    "isNegative r' = ((numerator r < 0) \<noteq> (denominator r < 0))"
    using Rational_new_value [OF d] by blast
  have "negate r = Inr r'"
    using True r'(1) by (simp add: negate_def)
  moreover have "value_of r' = - value_of r"
    using True r'(2) by (simp add: value_of_def)
  moreover have "\<not> isNegative r'"
    using r'(5) assms by simp
  ultimately show ?thesis
    using r'(3,4) by (intro that) simp_all
next
  case False
  from assms(2) have d: "denominator r \<noteq> 0" by simp
  obtain r' where r': "Rational_new (numerator r * minusOne) (denominator r) = Inr r'"
    "value_of r' = of_int (numerator r * minusOne) / of_int (denominator r)"
    "0 \<le> numerator r'" "0 < denominator r'"
    using Rational_new_value [OF d] by blast
  have "negate r = Inr r'"
    using False r'(1) by (simp add: negate_def)
  moreover have "value_of r' = - value_of r"
    using False r'(2) by (simp add: value_of_def minusOne_def)
  ultimately show ?thesis
    using r'(3,4) False by (intro that) simp_all
qed

text \<open>On operands that are not negative both binary operations are exact.\<close>

lemma priv_add_nonneg:
  assumes "\<not> isNegative x" and "\<not> isNegative y"
    and "0 < denominator x" and "0 < denominator y"
    and "0 \<le> numerator x" and "0 \<le> numerator y"
  obtains z where "priv_add x y = Inr z" and "value_of z = value_of x + value_of y"
    and "0 \<le> numerator z" and "0 < denominator z" and "\<not> isNegative z"
proof -
  let ?p = "numerator x * denominator y + numerator y * denominator x"
  let ?q = "denominator x * denominator y"
  have q: "?q \<noteq> 0" and q0: "0 < ?q" and p0: "0 \<le> ?p"
    using assms by simp_all
  obtain z where z: "Rational_new ?p ?q = Inr z" "value_of z = of_int ?p / of_int ?q"
    "0 \<le> numerator z" "0 < denominator z" "isNegative z = ((?p < 0) \<noteq> (?q < 0))"
    using Rational_new_value [OF q] by blast
  have "priv_add x y = Inr z"
    using assms(1,2) z(1) by (simp add: priv_add.simps [of x y])
  moreover have "value_of z = value_of x + value_of y"
    using assms(1-4) z(2) by (simp add: value_of_def add_frac_eq)
  moreover have "\<not> isNegative z"
    using z(5) q0 p0 by simp
  ultimately show ?thesis
    using z(3,4) by (intro that)
qed

lemma priv_subtract_nonneg:
  assumes "\<not> isNegative x" and "\<not> isNegative y"
    and "0 < denominator x" and "0 < denominator y"
  obtains z where "priv_subtract x y = Inr z" and "value_of z = value_of x - value_of y"
    and "0 \<le> numerator z" and "0 < denominator z"
proof -
  let ?p = "numerator x * denominator y - numerator y * denominator x"
  let ?q = "denominator x * denominator y"
  have q: "?q \<noteq> 0"
    using assms by simp
  obtain z where z: "Rational_new ?p ?q = Inr z" "value_of z = of_int ?p / of_int ?q"
    "0 \<le> numerator z" "0 < denominator z"
    using Rational_new_value [OF q] by blast
  have "priv_subtract x y = Inr z"
    using assms(1) z(1) by (simp add: priv_subtract.simps [of x y])
  moreover have "value_of z = value_of x - value_of y"
    using assms z(2) by (simp add: value_of_def diff_frac_eq)
  ultimately show ?thesis
    using z(3,4) by (intro that)
qed


text \<open>
  \<^verbatim>\<open>_add\<close> is exact for every combination of signs: a negative operand is negated and
  handed to \<^verbatim>\<open>_subtract\<close> as the second operand, which is then not negative.
\<close>

lemma priv_add_exact:
  assumes x: "0 \<le> numerator x" "0 < denominator x"
    and y: "0 \<le> numerator y" "0 < denominator y"
  shows "\<exists>z. priv_add x y = Inr z \<and> value_of z = value_of x + value_of y"
proof (cases "isNegative x")
  case True
  obtain x' where x': "negate x = Inr x'" "value_of x' = - value_of x"
    "0 \<le> numerator x'" "0 < denominator x'" "\<not> isNegative x'"
    using negate_value [OF x] True by blast
  have add: "priv_add x y = priv_subtract y x'"
    using True x'(1) by (simp add: priv_add.simps [of x y])
  show ?thesis
  proof (cases "isNegative y")
    case yneg: True
    obtain y' where y': "negate y = Inr y'" "value_of y' = - value_of y"
      "0 \<le> numerator y'" "0 < denominator y'" "\<not> isNegative y'"
      using negate_value [OF y] yneg by blast
    obtain s where s: "priv_add y' x' = Inr s" "value_of s = value_of y' + value_of x'"
      "0 \<le> numerator s" "0 < denominator s"
      using priv_add_nonneg [OF y'(5) x'(5) y'(4) x'(4) y'(3) x'(3)] by blast
    obtain z where z: "negate s = Inr z" "value_of z = - value_of s"
      using negate_value [OF s(3,4)] by blast
    have "priv_subtract y x' = Inr z"
      using yneg y'(1) s(1) z(1) by (simp add: priv_subtract.simps [of y x'])
    moreover have "value_of z = value_of x + value_of y"
      using z(2) s(2) x'(2) y'(2) by simp
    ultimately show ?thesis
      using add by simp
  next
    case ypos: False
    obtain z where "priv_subtract y x' = Inr z" "value_of z = value_of y - value_of x'"
      using priv_subtract_nonneg [OF ypos x'(5) y(2) x'(4)] by blast
    then show ?thesis
      using add x'(2) by simp
  qed
next
  case False
  show ?thesis
  proof (cases "isNegative y")
    case yneg: True
    obtain y' where y': "negate y = Inr y'" "value_of y' = - value_of y"
      "0 \<le> numerator y'" "0 < denominator y'" "\<not> isNegative y'"
      using negate_value [OF y] yneg by blast
    have add: "priv_add x y = priv_subtract x y'"
      using False yneg y'(1) by (simp add: priv_add.simps [of x y])
    obtain z where "priv_subtract x y' = Inr z" "value_of z = value_of x - value_of y'"
      using priv_subtract_nonneg [OF False y'(5) x(2) y'(4)] by blast
    then show ?thesis
      using add y'(2) by simp
  next
    case ypos: False
    obtain z where "priv_add x y = Inr z" "value_of z = value_of x + value_of y"
      using priv_add_nonneg [OF False ypos x(2) y(2) x(1) y(1)] by blast
    then show ?thesis by simp
  qed
qed

text \<open>
  \<^verbatim>\<open>_subtract\<close> is exact when its first operand is negative or its second is not: the one
  combination left is the one it gets wrong.
\<close>

lemma priv_add_after_negate:
  assumes x: "0 \<le> numerator x" "0 < denominator x" "\<not> isNegative x"
    and y: "0 \<le> numerator y" "0 < denominator y"
  obtains s where "priv_add x y = Inr s" and "value_of s = value_of x + value_of y"
    and "0 \<le> numerator s" and "0 < denominator s"
proof (cases "isNegative y")
  case True
  obtain y' where y': "negate y = Inr y'" "value_of y' = - value_of y"
    "0 \<le> numerator y'" "0 < denominator y'" "\<not> isNegative y'"
    using negate_value [OF y] True by blast
  have add: "priv_add x y = priv_subtract x y'"
    using x(3) True y'(1) by (simp add: priv_add.simps [of x y])
  obtain s where s: "priv_subtract x y' = Inr s" "value_of s = value_of x - value_of y'"
    "0 \<le> numerator s" "0 < denominator s"
    using priv_subtract_nonneg [OF x(3) y'(5) x(2) y'(4)] by blast
  have "priv_add x y = Inr s"
    using add s(1) by simp
  moreover have "value_of s = value_of x + value_of y"
    using s(2) y'(2) by simp
  ultimately show ?thesis
    using s(3,4) by (rule that)
next
  case False
  obtain s where s: "priv_add x y = Inr s" "value_of s = value_of x + value_of y"
    "0 \<le> numerator s" "0 < denominator s"
    using priv_add_nonneg [OF x(3) False x(2) y(2) x(1) y(1)] by blast
  then show ?thesis by (rule that)
qed

lemma priv_subtract_exact:
  assumes x: "0 \<le> numerator x" "0 < denominator x"
    and y: "0 \<le> numerator y" "0 < denominator y"
    and signs: "isNegative x \<or> \<not> isNegative y"
  shows "\<exists>z. priv_subtract x y = Inr z \<and> value_of z = value_of x - value_of y"
proof (cases "isNegative x")
  case True
  obtain x' where x': "negate x = Inr x'" "value_of x' = - value_of x"
    "0 \<le> numerator x'" "0 < denominator x'" "\<not> isNegative x'"
    using negate_value [OF x] True by blast
  obtain s where s: "priv_add x' y = Inr s" "value_of s = value_of x' + value_of y"
    "0 \<le> numerator s" "0 < denominator s"
    using priv_add_after_negate [OF x'(3,4,5) y] by blast
  obtain z where z: "negate s = Inr z" "value_of z = - value_of s"
    using negate_value [OF s(3,4)] by blast
  have "priv_subtract x y = Inr z"
    using True x'(1) s(1) z(1) by (simp add: priv_subtract.simps [of x y])
  moreover have "value_of z = value_of x - value_of y"
    using z(2) s(2) x'(2) by simp
  ultimately show ?thesis by simp
next
  case False
  with signs have ypos: "\<not> isNegative y" by simp
  obtain z where "priv_subtract x y = Inr z" "value_of z = value_of x - value_of y"
    using priv_subtract_nonneg [OF False ypos x(2) y(2)] by blast
  then show ?thesis by simp
qed


lemma cmp_antisymmetric:
  assumes "0 < denominator x" and "0 < denominator y"
  shows "cmp x y = - cmp y x"
  by (simp add: cmp_value_of [OF assms] cmp_value_of [OF assms(2,1)])

lemma cmp_transitive:
  assumes "0 < denominator x" and "0 < denominator y" and "0 < denominator z"
    and "cmp x y = - 1" and "cmp y z = - 1"
  shows "cmp x z = - 1"
proof -
  have "value_of x < value_of y"
    using assms(4) by (simp add: cmp_value_of [OF assms(1,2)] split: if_splits)
  moreover have "value_of y < value_of z"
    using assms(5) by (simp add: cmp_value_of [OF assms(2,3)] split: if_splits)
  ultimately have "value_of x < value_of z" by simp
  then show ?thesis
    by (simp add: cmp_value_of [OF assms(1,3)])
qed

lemma cmp_zero_iff_value:
  assumes "0 < denominator x" and "0 < denominator y"
  shows "cmp x y = 0 \<longleftrightarrow> value_of x = value_of y"
  by (auto simp: cmp_value_of [OF assms])

text \<open>
  Apart from a zero that carries the sign flag, the Rationals of the constructor are
  canonical: two of them compare as equal only when they are the same triple.
\<close>

lemma cmp_zero_iff_identical:
  assumes x: "Rational_new p q = Inr x" and y: "Rational_new p' q' = Inr y"
    and zx: "numerator x \<noteq> 0 \<or> \<not> isNegative x"
    and zy: "numerator y \<noteq> 0 \<or> \<not> isNegative y"
  shows "cmp x y = 0 \<longleftrightarrow> x = y"
proof
  assume "x = y"
  then show "cmp x y = 0" by (simp add: cmp_def)
next
  assume c: "cmp x y = 0"
  note px = Rational_new_props(2-4) [OF x] and py = Rational_new_props(2-4) [OF y]
  let ?sx = "if isNegative x then minusOne else 1" and ?sy = "if isNegative y then minusOne else 1"
  from c have eq: "?sx * numerator x * denominator y = ?sy * numerator y * denominator x"
    by (simp add: cmp_def Let_def split: if_splits)
  have nn: "0 \<le> numerator x * denominator y" "0 \<le> numerator y * denominator x"
    using px py by simp_all
  have sign: "isNegative x = isNegative y"
  proof (rule ccontr)
    assume d: "isNegative x \<noteq> isNegative y"
    then have "numerator x * denominator y = - (numerator y * denominator x)"
      using eq by (cases "isNegative x") (simp_all add: minusOne_def)
    with nn have "numerator x * denominator y = 0" "numerator y * denominator x = 0"
      by linarith+
    with px py have "numerator x = 0" "numerator y = 0"
      by simp_all
    with zx zy d show False by simp
  qed
  then have "numerator x * denominator y = numerator y * denominator x"
    using eq by (cases "isNegative x") (simp_all add: minusOne_def)
  then have "\<bar>numerator x\<bar> * \<bar>denominator y\<bar> = \<bar>numerator y\<bar> * \<bar>denominator x\<bar>"
    by (simp only: abs_mult [symmetric])
  moreover have "coprime (numerator x) (denominator x)" "coprime (numerator y) (denominator y)"
    using px(3) py(3) by (simp_all add: coprime_iff_gcd_eq_1)
  ultimately have "\<bar>numerator x\<bar> = \<bar>numerator y\<bar> \<and> \<bar>denominator y\<bar> = \<bar>denominator x\<bar>"
    by (simp only: coprime_crossproduct_int)
  then have "numerator x = numerator y" "denominator x = denominator y"
    using px py by simp_all
  with sign show "x = y" by simp
qed

end
